theory Spec2Isabelle
  imports Main "HOL-Library.AList"
begin

section \<open>The scheduler: \<^verbatim>\<open>packages/lib/Worker.ts\<close>\<close>

text \<open>
  \<^verbatim>\<open>Worker<T>\<close> keeps a buffer of messages, a \<^verbatim>\<open>Map\<close> from routing keys to handler
  arrays and the handle of its pending timer. The key \<^verbatim>\<open>ANY\<close> is a module-private symbol,
  so no key computed by \<^verbatim>\<open>getKey\<close> can equal it: keys are a datatype with \<open>ANY\<close> apart.

  Handlers and the deferral predicate are JavaScript closures. A handler is named by a
  value of type \<open>'h\<close> and run by an interpretation \<open>exec h m\<close>, a transformer of the whole
  worker (the source pops one message at a time "so handle can modify the queue"); the
  deferral predicate reads the message and the closure state \<open>world\<close> that handlers may
  change. A handler that raises is outside this model (the handlers here return).

  The host's timers are part of the state: \<open>timers\<close> lists the handles that are armed (each
  would call \<^verbatim>\<open>#doWork\<close> when it fires), \<open>timer_seq\<close> counts the handles issued so far;
  \<^verbatim>\<open>setTimeout\<close> returns a positive handle.
\<close>

datatype 'k hkey = ANY | Key 'k

record ('a, 'k, 'w) WorkerOpts =
  getKey :: "('a \<Rightarrow> 'k) option"
  shouldDefer :: "('a \<Rightarrow> 'w \<Rightarrow> bool) option"

record ('a, 'k, 'h, 'w) Worker =
  buffer :: "'a list"
  handlers :: "('k hkey \<times> 'h list) list"
  timeout :: "nat option"
  timers :: "nat list"
  timer_seq :: nat
  world :: 'w

text \<open>
  Instrumentation of a cycle, not part of the worker: the messages dispatched to handlers
  and the handler invocations, both in the order they happen.
\<close>

record ('a, 'h) Trace =
  handled :: "'a list"
  calls :: "('h \<times> 'a) list"

definition no_trace :: "('a, 'h) Trace" where
  "no_trace = \<lparr>handled = [], calls = []\<rparr>"

definition new_worker :: "'w \<Rightarrow> ('a, 'k, 'h, 'w) Worker" where
  "new_worker v = \<lparr>buffer = [], handlers = [], timeout = None, timers = [], timer_seq = 0, world = v\<rparr>"

text \<open>\<^verbatim>\<open>this.handlers.get(k) || []\<close>\<close>

definition get_handlers :: "'k hkey \<Rightarrow> ('a, 'k, 'h, 'w) Worker \<Rightarrow> 'h list" where
  "get_handlers k w = (case map_of (handlers w) k of None \<Rightarrow> [] | Some hs \<Rightarrow> hs)"

text \<open>\<^verbatim>\<open>this.opts.shouldDefer?.(message)\<close>: falsy when no predicate is configured.\<close>

definition should_defer :: "('a, 'k, 'w) WorkerOpts \<Rightarrow> 'a \<Rightarrow> ('a, 'k, 'h, 'w) Worker \<Rightarrow> bool" where
  "should_defer opts m w = (case shouldDefer opts of None \<Rightarrow> False | Some d \<Rightarrow> d m (world w))"

text \<open>\<^verbatim>\<open>await handler(message)\<close>: the handler's whole effect, then the next statement.\<close>

definition call_handler ::
  "('h \<Rightarrow> 'a \<Rightarrow> ('a, 'k, 'h, 'w) Worker \<Rightarrow> ('a, 'k, 'h, 'w) Worker) \<Rightarrow> 'a \<Rightarrow>
   ('a, 'k, 'h, 'w) Worker \<times> ('a, 'h) Trace \<Rightarrow> 'h \<Rightarrow> ('a, 'k, 'h, 'w) Worker \<times> ('a, 'h) Trace" where
  "call_handler exec m s h = (exec h m (fst s), (snd s)\<lparr>calls := calls (snd s) @ [(h, m)]\<rparr>)"

text \<open>
  The \<^verbatim>\<open>else\<close> branch of the loop body: the handlers under \<^verbatim>\<open>ANY\<close>, as the map holds them
  when the loop over them starts, then, if \<^verbatim>\<open>getKey\<close> is configured, the handlers under the
  message's key, as the map holds them after the global handlers ran.
\<close>

definition dispatch ::
  "('h \<Rightarrow> 'a \<Rightarrow> ('a, 'k, 'h, 'w) Worker \<Rightarrow> ('a, 'k, 'h, 'w) Worker) \<Rightarrow> ('a, 'k, 'w) WorkerOpts \<Rightarrow> 'a \<Rightarrow>
   ('a, 'k, 'h, 'w) Worker \<times> ('a, 'h) Trace \<Rightarrow> ('a, 'k, 'h, 'w) Worker \<times> ('a, 'h) Trace" where
  "dispatch exec opts m s =
     (let s0 = (fst s, (snd s)\<lparr>handled := handled (snd s) @ [m]\<rparr>);
          s1 = foldl (call_handler exec m) s0 (get_handlers ANY (fst s0))
      in case getKey opts of
           None \<Rightarrow> s1
         | Some g \<Rightarrow> foldl (call_handler exec m) s1 (get_handlers (Key (g m)) (fst s1)))"

text \<open>
  One iteration of the loop of \<^verbatim>\<open>#doWork\<close> on a non-empty buffer:
  \<^verbatim>\<open>const [message] = this.buffer.splice(0, 1)\<close>, then defer or dispatch.
\<close>

definition doWork_step ::
  "('h \<Rightarrow> 'a \<Rightarrow> ('a, 'k, 'h, 'w) Worker \<Rightarrow> ('a, 'k, 'h, 'w) Worker) \<Rightarrow> ('a, 'k, 'w) WorkerOpts \<Rightarrow>
   ('a, 'k, 'h, 'w) Worker \<times> ('a, 'h) Trace \<Rightarrow> ('a, 'k, 'h, 'w) Worker \<times> ('a, 'h) Trace" where
  "doWork_step exec opts s =
     (case buffer (fst s) of
        [] \<Rightarrow> s
      | m # rest \<Rightarrow>
          (let w1 = (fst s)\<lparr>buffer := rest\<rparr>
           in if should_defer opts m w1
              then (w1\<lparr>buffer := buffer w1 @ [m]\<rparr>, snd s)
              else dispatch exec opts m (w1, snd s)))"

text \<open>\<^verbatim>\<open>for (let i = 0; i < 50; i++) { if (this.buffer.length === 0) break; ... }\<close>\<close>

fun doWork_loop ::
  "nat \<Rightarrow> ('h \<Rightarrow> 'a \<Rightarrow> ('a, 'k, 'h, 'w) Worker \<Rightarrow> ('a, 'k, 'h, 'w) Worker) \<Rightarrow> ('a, 'k, 'w) WorkerOpts \<Rightarrow>
   ('a, 'k, 'h, 'w) Worker \<times> ('a, 'h) Trace \<Rightarrow> ('a, 'k, 'h, 'w) Worker \<times> ('a, 'h) Trace" where
  "doWork_loop 0 exec opts s = s"
| "doWork_loop (Suc n) exec opts s =
     (if buffer (fst s) = [] then s else doWork_loop n exec opts (doWork_step exec opts s))"

text \<open>\<^verbatim>\<open>!this.timeout\<close>: \<^verbatim>\<open>undefined\<close> and the number 0 are falsy.\<close>

definition falsy_handle :: "nat option \<Rightarrow> bool" where
  "falsy_handle t = (case t of None \<Rightarrow> True | Some h \<Rightarrow> h = 0)"

definition setTimeout :: "('a, 'k, 'h, 'w) Worker \<Rightarrow> nat \<times> ('a, 'k, 'h, 'w) Worker" where
  "setTimeout w = (let h = Suc (timer_seq w) in (h, w\<lparr>timers := timers w @ [h], timer_seq := h\<rparr>))"

definition clearTimeout :: "nat option \<Rightarrow> ('a, 'k, 'h, 'w) Worker \<Rightarrow> ('a, 'k, 'h, 'w) Worker" where
  "clearTimeout t w = (case t of None \<Rightarrow> w | Some h \<Rightarrow> w\<lparr>timers := removeAll h (timers w)\<rparr>)"

definition enqueueWork :: "('a, 'k, 'h, 'w) Worker \<Rightarrow> ('a, 'k, 'h, 'w) Worker" where
  "enqueueWork w =
     (if falsy_handle (timeout w) \<and> length (buffer w) > 0
      then (let r = setTimeout w in (snd r)\<lparr>timeout := Some (fst r)\<rparr>)
      else w)"

definition doWork ::
  "('h \<Rightarrow> 'a \<Rightarrow> ('a, 'k, 'h, 'w) Worker \<Rightarrow> ('a, 'k, 'h, 'w) Worker) \<Rightarrow> ('a, 'k, 'w) WorkerOpts \<Rightarrow>
   ('a, 'k, 'h, 'w) Worker \<Rightarrow> ('a, 'k, 'h, 'w) Worker \<times> ('a, 'h) Trace" where
  "doWork exec opts w =
     (let s = doWork_loop 50 exec opts (w, no_trace)
      in (enqueueWork ((fst s)\<lparr>timeout := None\<rparr>), snd s))"

text \<open>The armed timer \<open>h\<close> fires: the host disarms it and runs \<^verbatim>\<open>#doWork\<close>.\<close>

definition fire ::
  "nat \<Rightarrow> ('h \<Rightarrow> 'a \<Rightarrow> ('a, 'k, 'h, 'w) Worker \<Rightarrow> ('a, 'k, 'h, 'w) Worker) \<Rightarrow> ('a, 'k, 'w) WorkerOpts \<Rightarrow>
   ('a, 'k, 'h, 'w) Worker \<Rightarrow> ('a, 'k, 'h, 'w) Worker \<times> ('a, 'h) Trace" where
  "fire h exec opts w =
     (if h \<in> set (timers w) then doWork exec opts (w\<lparr>timers := removeAll h (timers w)\<rparr>)
      else (w, no_trace))"

definition push :: "'a \<Rightarrow> ('a, 'k, 'h, 'w) Worker \<Rightarrow> ('a, 'k, 'h, 'w) Worker" where
  "push m w = enqueueWork (w\<lparr>buffer := buffer w @ [m]\<rparr>)"

definition addHandler :: "'k hkey \<Rightarrow> 'h \<Rightarrow> ('a, 'k, 'h, 'w) Worker \<Rightarrow> ('a, 'k, 'h, 'w) Worker" where
  "addHandler k h w = w\<lparr>handlers := AList.update k (get_handlers k w @ [h]) (handlers w)\<rparr>"


definition clear :: "('a, 'k, 'h, 'w) Worker \<Rightarrow> ('a, 'k, 'h, 'w) Worker" where
  "clear w = w\<lparr>buffer := []\<rparr>"

definition stop :: "('a, 'k, 'h, 'w) Worker \<Rightarrow> ('a, 'k, 'h, 'w) Worker" where
  "stop w = clearTimeout (timeout w) w"

text \<open>
  What a client can do to a worker between cycles, for statements about every reachable
  state: \<^verbatim>\<open>push\<close>, \<^verbatim>\<open>stop\<close>, \<^verbatim>\<open>clear\<close>, and a timer firing (a completed cycle).
\<close>

datatype 'a worker_op = Push 'a | Stop | Clear | Fire nat

fun apply_op ::
  "('h \<Rightarrow> 'a \<Rightarrow> ('a, 'k, 'h, 'w) Worker \<Rightarrow> ('a, 'k, 'h, 'w) Worker) \<Rightarrow> ('a, 'k, 'w) WorkerOpts \<Rightarrow>
   ('a, 'k, 'h, 'w) Worker \<Rightarrow> 'a worker_op \<Rightarrow> ('a, 'k, 'h, 'w) Worker" where
  "apply_op exec opts w (Push m) = push m w"
| "apply_op exec opts w Stop = stop w"
| "apply_op exec opts w Clear = clear w"
| "apply_op exec opts w (Fire h) = fst (fire h exec opts w)"

section \<open>Publication statuses and the merged view: \<^verbatim>\<open>packages/app/src/thunk.ts\<close>\<close>

text \<open>
  \<^verbatim>\<open>PublishStatus\<close> is an enumeration of \<^verbatim>\<open>@welshman/net\<close>; the source names its five
  members. A \<^verbatim>\<open>ThunkStatusByUrl\<close> is a JavaScript object used as a dictionary: an
  association list in insertion order, read with \<open>map_of\<close> and written with
  \<open>AList.update\<close> (an existing key keeps its place, a new key goes last). The keys
  are relay URLs: property names that JavaScript treats specially (\<^verbatim>\<open>__proto__\<close>, or
  integer-like names, which an object lists first) are outside the model.
\<close>

datatype PublishStatus = Pending | Success | Failure | Timeout | Aborted

record ThunkStatus =
  message :: string
  status :: PublishStatus

type_synonym ThunkStatusByUrl = "(string \<times> ThunkStatus) list"

text \<open>\<^verbatim>\<open>uniq\<close> of \<^verbatim>\<open>@welshman/lib\<close>: the elements in the order of their first occurrence.\<close>

definition uniq :: "'a list \<Rightarrow> 'a list" where
  "uniq xs = rev (remdups (rev xs))"

definition severity_order :: "PublishStatus list" where
  "severity_order = [Aborted, Failure, Timeout, Pending, Success]"

text \<open>\<^verbatim>\<open>urlStatuses.find(s => s?.status === status)\<close>\<close>

definition find_with_status :: "PublishStatus \<Rightarrow> ThunkStatus option list \<Rightarrow> ThunkStatus option" where
  "find_with_status k us =
     (case List.find (\<lambda>s. case s of None \<Rightarrow> False | Some st \<Rightarrow> status st = k) us of
        Some (Some st) \<Rightarrow> Some st
      | _ \<Rightarrow> None)"

text \<open>\<^verbatim>\<open>[Aborted, Failure, Timeout, Pending, Success].map(...).find(identity)\<close>\<close>

definition pick_status :: "ThunkStatus option list \<Rightarrow> ThunkStatus option" where
  "pick_status us =
     (case List.find (\<lambda>r. r \<noteq> None) (map (\<lambda>k. find_with_status k us) severity_order) of
        Some r \<Rightarrow> r
      | None \<Rightarrow> None)"

text \<open>The function given to \<^verbatim>\<open>derived\<close> in \<^verbatim>\<open>mergeThunks\<close>, on the members' statuses.\<close>

definition mergeStatus :: "ThunkStatusByUrl list \<Rightarrow> ThunkStatusByUrl" where
  "mergeStatus statuses =
     foldl (\<lambda>mergedStatus url.
              case pick_status (map (\<lambda>s. map_of s url) statuses) of
                None \<Rightarrow> mergedStatus
              | Some thunkStatus \<Rightarrow> AList.update url thunkStatus mergedStatus)
           [] (uniq (concat (map (map fst) statuses)))"

text \<open>
  The specification's reading of the fixed severity order, for comparison with the code:
  the position of a kind in "Aborted, Failure, Timeout, Pending, Success".
\<close>

fun severity :: "PublishStatus \<Rightarrow> nat" where
  "severity Aborted = 0"
| "severity Failure = 1"
| "severity Timeout = 2"
| "severity Pending = 3"
| "severity Success = 4"

section \<open>Events and their completion\<close>

text \<open>
  An event template has a kind, tags and a content; the completion stages add a creation
  time, a publisher key and an identity, signing adds a signature. An unwrapped event
  (a rumor) also carries the signed wrapper it came in.
\<close>

record EventFields =
  kind :: nat
  tags :: "string list list"
  content :: string
  created_at :: "nat option"
  pubkey :: "string option"
  id' :: "string option"
  sig :: "string option"

record ThunkEvent = EventFields +
  wrap :: "EventFields option"

definition fields_of :: "'z EventFields_scheme \<Rightarrow> EventFields" where
  "fields_of e = \<lparr>kind = kind e, tags = tags e, content = content e, created_at = created_at e,
                  pubkey = pubkey e, id' = id' e, sig = sig e\<rparr>"

text \<open>
  What \<^verbatim>\<open>prepEvent\<close> reads from its environment: the hash function, the clock that
  \<^verbatim>\<open>stamp\<close> reads and the session's public key \<^verbatim>\<open>get(pubkey)\<close>, which is
  \<^verbatim>\<open>undefined\<close> when nobody is logged in.
\<close>

record Env =
  digest :: "string option \<times> nat option \<times> nat \<times> string list list \<times> string \<Rightarrow> string"
  clock :: nat
  session_pubkey :: "string option"

text \<open>
  Modelled from the spec: \<^verbatim>\<open>isStampedEvent\<close>, \<^verbatim>\<open>isOwnedEvent\<close>, \<^verbatim>\<open>isHashedEvent\<close>,
  \<^verbatim>\<open>isSignedEvent\<close> and \<^verbatim>\<open>isUnwrappedEvent\<close> of \<^verbatim>\<open>@welshman/util\<close> are not among the
  sources. The specification: stamped is "has a creation timestamp", owned is "has a
  publisher identity", hashed is "has a deterministic identity derived from its completed
  fields", signed is "has a cryptographic proof over the hashed form".
\<close>

definition isStampedEvent :: "'z EventFields_scheme \<Rightarrow> bool" where
  "isStampedEvent e = (created_at e \<noteq> None)"

definition isOwnedEvent :: "'z EventFields_scheme \<Rightarrow> bool" where
  "isOwnedEvent e = (pubkey e \<noteq> None)"

definition isHashedEvent :: "'z EventFields_scheme \<Rightarrow> bool" where
  "isHashedEvent e = (id' e \<noteq> None)"

definition isSignedEvent :: "'z EventFields_scheme \<Rightarrow> bool" where
  "isSignedEvent e = (sig e \<noteq> None)"

definition isUnwrappedEvent :: "ThunkEvent \<Rightarrow> bool" where
  "isUnwrappedEvent e = (wrap e \<noteq> None)"

text \<open>
  Modelled from the spec: \<^verbatim>\<open>stamp\<close>, \<^verbatim>\<open>own\<close> and \<^verbatim>\<open>hash\<close> of \<^verbatim>\<open>@welshman/signer\<close> are
  not among the sources. Each sets the field of its stage: the creation time from the
  clock, the publisher key it is given, the identity computed from the completed fields.
\<close>

definition stamp :: "'z EventFields_scheme \<Rightarrow> nat \<Rightarrow> 'z EventFields_scheme" where
  "stamp e now = e\<lparr>created_at := Some now\<rparr>"

definition own :: "'z EventFields_scheme \<Rightarrow> string option \<Rightarrow> 'z EventFields_scheme" where
  "own e pk = e\<lparr>pubkey := pk\<rparr>"

definition hash :: "Env \<Rightarrow> 'z EventFields_scheme \<Rightarrow> 'z EventFields_scheme" where
  "hash env e = e\<lparr>id' := Some (digest env (pubkey e, created_at e, kind e, tags e, content e))\<rparr>"

text \<open>\<^verbatim>\<open>prepEvent\<close>, as the source writes it: three guarded stages in sequence.\<close>

definition prepEvent :: "Env \<Rightarrow> 'z EventFields_scheme \<Rightarrow> 'z EventFields_scheme" where
  "prepEvent env event0 =
     (let event1 = (if \<not> isStampedEvent event0 then stamp event0 (clock env) else event0);
          event2 = (if \<not> isOwnedEvent event1 then own event1 (session_pubkey env) else event1);
          event3 = (if \<not> isHashedEvent event2 then hash env event2 else event2)
      in event3)"

section \<open>The publication unit and its dispatch\<close>

text \<open>
  A \<^verbatim>\<open>ThunkRequest\<close> (\<open>req_event\<close>, \<open>req_timeout\<close> and \<open>req_context\<close> are its fields
  \<^verbatim>\<open>event\<close>, \<^verbatim>\<open>timeout\<close> and \<^verbatim>\<open>context\<close>; the adapter context is opaque).
\<close>

typedecl AdapterContext

record ThunkRequest =
  req_event :: ThunkEvent
  relays :: "string list"
  delay :: "int option"
  req_timeout :: "int option"
  req_context :: "AdapterContext option"

text \<open>A \<^verbatim>\<open>Deferred\<close> promise: the source only ever resolves it.\<close>

datatype 'a Deferred = Unsettled | Fulfilled 'a | Rejected string

definition resolve :: "'a \<Rightarrow> 'a Deferred \<Rightarrow> 'a Deferred" where
  "resolve v d = (case d of Unsettled \<Rightarrow> Fulfilled v | _ \<Rightarrow> d)"

text \<open>
  Where the asynchronous body of \<^verbatim>\<open>processItem\<close> stands: not yet taken from the queue,
  scheduled as a microtask, awaiting the signer, awaiting \<^verbatim>\<open>sleep\<close>, subscribed to the
  broadcaster, or returned.
\<close>

datatype Phase = Queued | Scheduled | Signing | Delaying | Publishing | Stopped

text \<open>
  A \<^verbatim>\<open>Thunk\<close>. \<open>aborted\<close> is \<^verbatim>\<open>controller.signal.aborted\<close>, \<open>abort_listeners\<close> the event
  identities that the listeners added by \<^verbatim>\<open>publishThunk\<close> and \<^verbatim>\<open>publishThunks\<close> remove
  from the repository, \<open>statusByUrl\<close> the value of the \<^verbatim>\<open>status\<close> store. \<open>phase\<close>,
  \<open>sending\<close> (the local variable \<^verbatim>\<open>event\<close> of \<^verbatim>\<open>processItem\<close>, \<open>None\<close> when it holds
  \<^verbatim>\<open>undefined\<close> or \<^verbatim>\<open>null\<close>) and \<open>uncaught\<close> (an exception left the asynchronous body)
  are the state of the dispatch.
\<close>

record Thunk =
  event :: ThunkEvent
  request :: ThunkRequest
  aborted :: bool
  abort_listeners :: "string list"
  result :: "ThunkStatusByUrl Deferred"
  statusByUrl :: ThunkStatusByUrl
  phase :: Phase
  sending :: "EventFields option"
  uncaught :: bool

text \<open>
  Modelled from the spec: the repository of \<^verbatim>\<open>./core.js\<close> is not among the sources; it
  is the event store "exposing publish(event), getEvent(id), removeEvent(id)", keyed by
  identity. The tracker of \<^verbatim>\<open>./core.js\<close> is not among the sources either, and the
  specification does not describe it: the model keeps the pairs that \<^verbatim>\<open>track\<close> was called
  with, in call order.
\<close>

record Shared =
  tracker :: "(string \<times> string) list"
  repository :: "(string \<times> ThunkEvent) list"

text \<open>A property key or template literal made from an optional string.\<close>

definition js_string :: "string option \<Rightarrow> string" where
  "js_string v = (case v of None \<Rightarrow> ''undefined'' | Some s \<Rightarrow> s)"

definition makeThunk :: "Env \<Rightarrow> ThunkRequest \<Rightarrow> Thunk" where
  "makeThunk env req =
     (let e = prepEvent env (req_event req)
      in \<lparr>event = e, request = req, aborted = False, abort_listeners = [], result = Unsettled,
          statusByUrl = [], phase = Queued, sending = Some (fields_of e), uncaught = False\<rparr>)"

text \<open>
  \<^verbatim>\<open>fromPairs\<close> of \<^verbatim>\<open>@welshman/lib\<close>, which is not among the sources: the object made of
  the pairs in order, a later pair replacing an earlier one with the same key, and a pair
  whose key or value is falsy left out. The keys here are strings, falsy when empty; the
  values are status objects, which are never falsy.
\<close>

definition fromPairs :: "(string \<times> 'v) list \<Rightarrow> (string \<times> 'v) list" where
  "fromPairs pairs =
     foldl (\<lambda>obj kv. if fst kv = [] then obj else AList.update (fst kv) (snd kv) obj) [] pairs"

text \<open>
  \<^verbatim>\<open>fail\<close>: the loop \<^verbatim>\<open>status[url] = {status: PublishStatus.Failure, message}\<close> over the
  requested endpoints, which writes every key, then \<^verbatim>\<open>thunk.status.set(status)\<close>.
\<close>

definition fail :: "string \<Rightarrow> Thunk \<Rightarrow> Thunk" where
  "fail msg t =
     t\<lparr>statusByUrl := foldl (\<lambda>st url. AList.update url \<lparr>message = msg, status = Failure\<rparr> st) []
                             (relays (request t))\<rparr>"

text \<open>
  \<^verbatim>\<open>return fail(message)\<close> ends the asynchronous body; so does an exception that nothing
  in the body catches.
\<close>

definition fail_stop :: "string \<Rightarrow> Thunk \<times> Shared \<Rightarrow> Thunk \<times> Shared" where
  "fail_stop msg s = ((fail msg (fst s))\<lparr>phase := Stopped\<rparr>, snd s)"

definition raise_out :: "Thunk \<times> Shared \<Rightarrow> Thunk \<times> Shared" where
  "raise_out s = ((fst s)\<lparr>phase := Stopped, uncaught := True\<rparr>, snd s)"

text \<open>\<^verbatim>\<open>controller.abort()\<close>: the abort event fires once.\<close>

definition abort_controller :: "Thunk \<times> Shared \<Rightarrow> Thunk \<times> Shared" where
  "abort_controller s =
     (if aborted (fst s) then s
      else ((fst s)\<lparr>aborted := True\<rparr>,
            (snd s)\<lparr>repository := foldl (\<lambda>repo i. AList.delete i repo) (repository (snd s))
                                       (abort_listeners (fst s))\<rparr>))"

text \<open>The synchronous part of \<^verbatim>\<open>processItem\<close>.\<close>

definition processItem :: "Thunk \<Rightarrow> Thunk" where
  "processItem t =
     (if aborted t then t\<lparr>phase := Stopped\<rparr>
      else t\<lparr>sending := (if isUnwrappedEvent (event t) then wrap (event t) else Some (fields_of (event t))),
             phase := Scheduled\<rparr>)"

text \<open>
  From "Skip publishing if aborted" to the subscription to the broadcaster. The statuses
  become Pending; then \<^verbatim>\<open>signedEvent.id\<close> is read, which raises when the signer resolved
  with \<^verbatim>\<open>undefined\<close> or \<^verbatim>\<open>null\<close>: the body ends there, before any \<^verbatim>\<open>pub.on\<close>. Otherwise
  the signature is copied to the repository's copy of the event and the handlers are
  subscribed.
\<close>

definition start_publish :: "Thunk \<times> Shared \<Rightarrow> Thunk \<times> Shared" where
  "start_publish s =
     (if aborted (fst s) then ((fst s)\<lparr>phase := Stopped\<rparr>, snd s)
      else (let pending = (fst s)\<lparr>statusByUrl :=
                   fromPairs (map (\<lambda>url. (url, \<lparr>message = ''Sending your message...'', status = Pending\<rparr>))
                                  (relays (request (fst s))))\<rparr>
            in case sending (fst s) of
                 None \<Rightarrow> raise_out (pending, snd s)
               | Some signedEvent \<Rightarrow>
                   (pending\<lparr>phase := Publishing\<rparr>,
                    (snd s)\<lparr>repository :=
                               AList.map_entry (js_string (id' signedEvent))
                                 (\<lambda>savedEvent. savedEvent\<lparr>sig := sig signedEvent\<rparr>)
                                 (repository (snd s))\<rparr>)))"

text \<open>\<^verbatim>\<open>if (thunk.request.delay) await sleep(...)\<close>: absent and 0 are falsy.\<close>

definition after_sign :: "Thunk \<times> Shared \<Rightarrow> Thunk \<times> Shared" where
  "after_sign s =
     (case delay (request (fst s)) of
        None \<Rightarrow> start_publish s
      | Some d \<Rightarrow> if d = 0 then start_publish s else ((fst s)\<lparr>phase := Delaying\<rparr>, snd s))"

text \<open>
  What a rejected \<^verbatim>\<open>signer.sign\<close> carries, as \<^verbatim>\<open>String(e.error || e)\<close> reads it. On
  \<^verbatim>\<open>undefined\<close> or \<^verbatim>\<open>null\<close>, and on a value whose \<^verbatim>\<open>error\<close> getter raises, reading
  \<^verbatim>\<open>e.error\<close> raises: \<open>Nullish\<close>. Any other value has its \<^verbatim>\<open>error\<close> property (\<open>None\<close>
  when falsy) and its own conversion by \<^verbatim>\<open>String\<close>. A conversion is \<open>None\<close> when \<^verbatim>\<open>String\<close>
  raises, as it does on an object without \<^verbatim>\<open>toString\<close> and \<^verbatim>\<open>valueOf\<close>
  (\<^verbatim>\<open>Object.create(null)\<close>), and the string otherwise.
\<close>

datatype js_error = Nullish | Thrown "string option option" "string option"

text \<open>The value of \<^verbatim>\<open>String(e.error || e)\<close>, \<open>None\<close> when its evaluation raises.\<close>

definition error_message :: "js_error \<Rightarrow> string option" where
  "error_message e =
     (case e of
        Nullish \<Rightarrow> None
      | Thrown err str \<Rightarrow> (case err of Some conversion \<Rightarrow> conversion | None \<Rightarrow> str))"

text \<open>
  How \<^verbatim>\<open>await signer.sign(event)\<close> settles: it resolves with a value, \<open>None\<close> for
  \<^verbatim>\<open>undefined\<close> or \<^verbatim>\<open>null\<close>, or it raises or rejects.
\<close>

datatype sign_result = SignOk "EventFields option" | SignErr js_error

text \<open>The broadcaster's notifications, with the arguments that the handlers take.\<close>

datatype notification =
  OnSuccess string string string
| OnFailure string string string
| OnTimeout string
| OnAborted string
| OnComplete

text \<open>\<^verbatim>\<open>assoc(url, v)\<close> of \<^verbatim>\<open>@welshman/lib\<close> under \<^verbatim>\<open>thunk.status.update\<close>.\<close>

definition assoc_status :: "string \<Rightarrow> ThunkStatus \<Rightarrow> Thunk \<Rightarrow> Thunk" where
  "assoc_status url v t = t\<lparr>statusByUrl := AList.update url v (statusByUrl t)\<rparr>"

text \<open>The five handlers given to \<^verbatim>\<open>pub.on\<close>.\<close>

fun on_notification :: "notification \<Rightarrow> Thunk \<times> Shared \<Rightarrow> Thunk \<times> Shared" where
  "on_notification (OnSuccess i msg url) s =
     (assoc_status url \<lparr>message = msg, status = Success\<rparr> (fst s),
      (snd s)\<lparr>tracker := tracker (snd s) @ [(i, url)]\<rparr>)"
| "on_notification (OnFailure i msg url) s =
     (assoc_status url \<lparr>message = msg, status = Failure\<rparr> (fst s), snd s)"
| "on_notification (OnTimeout url) s =
     (assoc_status url \<lparr>message = ''Publish timed out'', status = Timeout\<rparr> (fst s), snd s)"
| "on_notification (OnAborted url) s =
     (assoc_status url \<lparr>message = ''Publish was aborted'', status = Aborted\<rparr> (fst s), snd s)"
| "on_notification OnComplete s =
     ((fst s)\<lparr>result := resolve (statusByUrl (fst s)) (result (fst s))\<rparr>, snd s)"

text \<open>
  What can happen to a unit: its controller is aborted; the queue calls \<^verbatim>\<open>processItem\<close>;
  the microtask starts (with whether \<^verbatim>\<open>getSigner\<close> finds a signer for the author); the
  signer settles; \<^verbatim>\<open>sleep\<close> returns; the broadcaster notifies.
\<close>

datatype dispatch_event =
  Abort
| ProcessItem
| Continue bool
| SignReturns sign_result
| Wake
| Notify notification

text \<open>
  One step of a unit. A happening that the dispatch is not waiting for changes nothing.
  The microtask reads \<^verbatim>\<open>event\<close>, which \<^verbatim>\<open>processItem\<close> has set; were it
  \<^verbatim>\<open>undefined\<close>, \<^verbatim>\<open>isSignedEvent\<close> would raise. A rejection of the signer is caught, and
  the handler either computes the message and fails every endpoint, or raises itself.
\<close>

fun step :: "dispatch_event \<Rightarrow> Thunk \<times> Shared \<Rightarrow> Thunk \<times> Shared" where
  "step Abort s = abort_controller s"
| "step ProcessItem s = (if phase (fst s) = Queued then (processItem (fst s), snd s) else s)"
| "step (Continue found) s =
     (if phase (fst s) \<noteq> Scheduled then s
      else case sending (fst s) of
        None \<Rightarrow> raise_out s
      | Some ev \<Rightarrow>
          if isSignedEvent ev then after_sign s
          else if \<not> found then fail_stop (''No signer found for '' @ js_string (pubkey ev)) s
          else ((fst s)\<lparr>phase := Signing\<rparr>, snd s))"
| "step (SignReturns r) s =
     (if phase (fst s) \<noteq> Signing then s
      else case r of
        SignOk signed \<Rightarrow> after_sign ((fst s)\<lparr>sending := signed\<rparr>, snd s)
      | SignErr e \<Rightarrow> (case error_message e of None \<Rightarrow> raise_out s | Some msg \<Rightarrow> fail_stop msg s))"
| "step Wake s = (if phase (fst s) = Delaying then start_publish s else s)"
| "step (Notify n) s = (if phase (fst s) = Publishing then on_notification n s else s)"

definition run :: "dispatch_event list \<Rightarrow> Thunk \<times> Shared \<Rightarrow> Thunk \<times> Shared" where
  "run evs s = foldl (\<lambda>s e. step e s) s evs"

section \<open>Aggregates and the registry\<close>

text \<open>
  Units and aggregates are objects that the queue, the registry and the aggregates share,
  so they live in a store and are referred to by their index. A \<^verbatim>\<open>MergedThunk\<close> holds
  its members' references and its own controller; its \<^verbatim>\<open>status\<close> is derived from the
  members' stores (\<open>merged_status\<close> below); its \<^verbatim>\<open>result\<close>, the \<^verbatim>\<open>Promise.all\<close> of the
  members' results, is not part of the model. \<open>thunks_store\<close> is the writable store
  \<^verbatim>\<open>thunks\<close>, \<open>queue\<close> the items pushed to \<^verbatim>\<open>thunkQueue\<close>.
\<close>

record MergedThunk =
  thunks :: "nat list"
  merged_aborted :: bool

datatype registered = Unit nat | Merged nat

record App =
  units :: "Thunk list"
  mergeds :: "MergedThunk list"
  thunks_store :: "(string \<times> registered) list"
  queue :: "nat list"
  shared :: Shared

definition new_app :: App where
  "new_app = \<lparr>units = [], mergeds = [], thunks_store = [], queue = [],
              shared = \<lparr>tracker = [], repository = []\<rparr>\<rparr>"

text \<open>A happening of unit \<open>i\<close>, in the store.\<close>

definition unit_step :: "nat \<Rightarrow> dispatch_event \<Rightarrow> App \<Rightarrow> App" where
  "unit_step i e app =
     (if i < length (units app)
      then (let s = step e (units app ! i, shared app)
            in app\<lparr>units := (units app)[i := fst s], shared := snd s\<rparr>)
      else app)"

text \<open>\<^verbatim>\<open>mergeThunks\<close>: a new controller whose abort listener aborts every member.\<close>

definition mergeThunks :: "nat list \<Rightarrow> App \<Rightarrow> nat \<times> App" where
  "mergeThunks refs app =
     (length (mergeds app), app\<lparr>mergeds := mergeds app @ [\<lparr>thunks = refs, merged_aborted = False\<rparr>]\<rparr>)"


definition abort_merged :: "nat \<Rightarrow> App \<Rightarrow> App" where
  "abort_merged k app =
     (if k < length (mergeds app) \<and> \<not> merged_aborted (mergeds app ! k)
      then foldl (\<lambda>a i. unit_step i Abort a)
             (app\<lparr>mergeds := (mergeds app)[k := (mergeds app ! k)\<lparr>merged_aborted := True\<rparr>]\<rparr>)
             (thunks (mergeds app ! k))
      else app)"

text \<open>
  The body of the loops of \<^verbatim>\<open>publishThunk\<close> and \<^verbatim>\<open>publishThunks\<close> for the unit \<open>i\<close>,
  registered as \<open>entry\<close>: push to the queue, publish to the repository, \<^verbatim>\<open>assoc\<close> into the
  store, add the abort listener.
\<close>

definition register_thunk :: "registered \<Rightarrow> App \<Rightarrow> nat \<Rightarrow> App" where
  "register_thunk entry app i =
     (let t = units app ! i; key = js_string (id' (event t))
      in app\<lparr>queue := queue app @ [i],
             shared := (shared app)\<lparr>repository := AList.update key (event t) (repository (shared app))\<rparr>,
             thunks_store := AList.update key entry (thunks_store app),
             units := (units app)[i := t\<lparr>abort_listeners := abort_listeners t @ [key]\<rparr>]\<rparr>)"

definition publishThunk :: "Env \<Rightarrow> ThunkRequest \<Rightarrow> App \<Rightarrow> nat \<times> App" where
  "publishThunk env req app =
     (let i = length (units app);
          app1 = app\<lparr>units := units app @ [makeThunk env req]\<rparr>
      in (i, register_thunk (Unit i) app1 i))"

definition publishThunks :: "Env \<Rightarrow> ThunkRequest list \<Rightarrow> App \<Rightarrow> nat \<times> App" where
  "publishThunks env requests app =
     (let base = length (units app);
          app1 = app\<lparr>units := units app @ map (makeThunk env) requests\<rparr>;
          newThunks = [base ..< base + length requests];
          m = mergeThunks newThunks app1
      in (fst m, foldl (register_thunk (Merged (fst m))) (snd m) newThunks))"




section \<open>Definitions used in the statements\<close>

text \<open>The pair that a notification hands to \<^verbatim>\<open>tracker.track\<close>, if any.\<close>

fun success_pair :: "dispatch_event \<Rightarrow> (string \<times> string) list" where
  "success_pair (Notify (OnSuccess i msg url)) = [(i, url)]"
| "success_pair _ = []"

text \<open>The kind of an endpoint's status in a unit, if it has one.\<close>

definition kind_at :: "string \<Rightarrow> Thunk \<Rightarrow> PublishStatus option" where
  "kind_at url t = map_option status (map_of (statusByUrl t) url)"

text \<open>How far an endpoint's status is: absent, Pending, or one of the four terminal kinds.\<close>

fun stage_of :: "PublishStatus option \<Rightarrow> nat" where
  "stage_of None = 0"
| "stage_of (Some Pending) = 1"
| "stage_of (Some _) = 2"

text \<open>
  The specification's transitions, for comparison with the code: "absent, then Pending,
  then one terminal kind; no transition out of a terminal kind".
\<close>

definition lifecycle_step :: "PublishStatus option \<Rightarrow> PublishStatus option \<Rightarrow> bool" where
  "lifecycle_step a b =
     (a = b \<or> (a = None \<and> b = Some Pending) \<or> (a = Some Pending \<and> b \<noteq> None \<and> b \<noteq> Some Pending))"

text \<open>The happening is a notification about the endpoint \<open>u\<close>.\<close>

fun notifies :: "string \<Rightarrow> dispatch_event \<Rightarrow> bool" where
  "notifies u (Notify (OnSuccess i msg url)) = (url = u)"
| "notifies u (Notify (OnFailure i msg url)) = (url = u)"
| "notifies u (Notify (OnTimeout url)) = (url = u)"
| "notifies u (Notify (OnAborted url)) = (url = u)"
| "notifies u _ = False"

definition is_rejected :: "'a Deferred \<Rightarrow> bool" where
  "is_rejected d = (case d of Rejected _ \<Rightarrow> True | _ \<Rightarrow> False)"

text \<open>Before the unit subscribes to the broadcaster or stops, its mapping is empty.\<close>

definition subscribed_or_unset :: "Thunk \<Rightarrow> bool" where
  "subscribed_or_unset t = (phase t = Publishing \<or> phase t = Stopped \<or> statusByUrl t = [])"




text \<open>A subscribed unit has a status for every requested endpoint with a non-empty name.\<close>

definition all_entered :: "Thunk \<Rightarrow> bool" where
  "all_entered t =
     (phase t = Publishing \<longrightarrow>
        list_all (\<lambda>u. u = [] \<or> map_of (statusByUrl t) u \<noteq> None) (relays (request t)))"

text \<open>
  A settlement of the signer on which the asynchronous body raises: it resolves with
  \<^verbatim>\<open>undefined\<close> or \<^verbatim>\<open>null\<close>, or rejects with a value for which \<^verbatim>\<open>String(e.error || e)\<close>
  raises.
\<close>

fun raises :: "dispatch_event \<Rightarrow> bool" where
  "raises (SignReturns (SignOk signed)) = (signed = None)"
| "raises (SignReturns (SignErr e)) = (error_message e = None)"
| "raises _ = False"

text \<open>A happening on which \<^verbatim>\<open>fail\<close> can be called: no signer is found, or the signer rejects.\<close>

fun signing_failure :: "dispatch_event \<Rightarrow> bool" where
  "signing_failure (Continue found) = (\<not> found)"
| "signing_failure (SignReturns (SignErr e)) = True"
| "signing_failure _ = False"

section \<open>Concrete inputs\<close>






text \<open>
  A worker whose handlers 0 and 2 are global and 1 and 3 are registered under the key
  \<open>''a''\<close>, in the order 0, 1, 2, 3; a handler appends its name to the closure state.
\<close>

definition reg_opts :: "(string, string, nat list) WorkerOpts" where
  "reg_opts = \<lparr>getKey = Some (\<lambda>m. m), shouldDefer = None\<rparr>"

definition reg_exec ::
  "nat \<Rightarrow> string \<Rightarrow> (string, string, nat, nat list) Worker \<Rightarrow> (string, string, nat, nat list) Worker" where
  "reg_exec h m w = w\<lparr>world := world w @ [h]\<rparr>"

definition reg_worker :: "(string, string, nat, nat list) Worker" where
  "reg_worker =
     push ''a'' (foldl (\<lambda>v r. addHandler (fst r) (snd r) v) (new_worker [])
                   [(ANY, 0), (Key ''a'', 1), (ANY, 2), (Key ''a'', 3)])"

text \<open>Three members' statuses: the first reports Success for \<open>''wss://a''\<close>, the other two Aborted.\<close>

definition two_members :: "ThunkStatusByUrl list" where
  "two_members =
     [[(''wss://a'', \<lparr>message = ''ok'', status = Success\<rparr>)],
      [(''wss://b'', \<lparr>message = ''Sending your message...'', status = Pending\<rparr>),
       (''wss://a'', \<lparr>message = ''Publish was aborted'', status = Aborted\<rparr>)],
      [(''wss://a'', \<lparr>message = ''again'', status = Aborted\<rparr>)]]"

text \<open>
  A session of \<open>''alice''\<close>, a note that is a bare template, two requests for it, the
  note as a signer returns it, and the unit of the first request after some happenings.
\<close>

definition env0 :: Env where
  "env0 = \<lparr>digest = (\<lambda>fields. ''id:'' @ snd (snd (snd (snd fields)))), clock = 100, session_pubkey = Some ''alice''\<rparr>"

definition note0 :: ThunkEvent where
  "note0 = \<lparr>kind = 1, tags = [], content = ''hello'', created_at = None, pubkey = None,
             id' = None, sig = None, wrap = None\<rparr>"

definition req_a :: ThunkRequest where
  "req_a = \<lparr>req_event = note0, relays = [''wss://a''], delay = None, req_timeout = None, req_context = None\<rparr>"

definition req_b :: ThunkRequest where
  "req_b = \<lparr>req_event = note0\<lparr>content := ''again''\<rparr>, relays = [''wss://b'', ''wss://c''], delay = Some 500,
             req_timeout = Some 1000, req_context = None\<rparr>"

text \<open>The first request with the empty string as its only endpoint.\<close>

definition req_unnamed :: ThunkRequest where
  "req_unnamed = req_a\<lparr>relays := [[]]\<rparr>"

definition no_shared :: Shared where
  "no_shared = \<lparr>tracker = [], repository = []\<rparr>"

definition signed0 :: EventFields where
  "signed0 = \<lparr>kind = 1, tags = [], content = ''hello'', created_at = Some 100, pubkey = Some ''alice'',
               id' = Some ''id:hello'', sig = Some ''sig0''\<rparr>"

definition unit_a_after :: "dispatch_event list \<Rightarrow> Thunk" where
  "unit_a_after evs = fst (run evs (makeThunk env0 req_a, no_shared))"

text \<open>
  The application after \<^verbatim>\<open>publishThunks([req_a, req_b])\<close>, and after the returned
  aggregate was aborted at once and some happenings followed.
\<close>

definition batch :: App where
  "batch = snd (publishThunks env0 [req_a, req_b] new_app)"


section \<open>Properties of the scheduler\<close>

lemma call_handler_handled:
  "handled (snd (call_handler exec m s h)) = handled (snd s)"
  by (simp add: call_handler_def)

lemma foldl_call_handler:
  "foldl (call_handler exec m) s hs =
     (foldl (\<lambda>v h. exec h m v) (fst s) hs, (snd s)\<lparr>calls := calls (snd s) @ map (\<lambda>h. (h, m)) hs\<rparr>)"
  by (induction hs arbitrary: s) (simp_all add: call_handler_def)

lemma dispatch_unfolded:
  "dispatch exec opts m (w, tr) =
     (let gs = get_handlers ANY w;
          w1 = foldl (\<lambda>v h. exec h m v) w gs;
          ks = (case getKey opts of None \<Rightarrow> [] | Some g \<Rightarrow> get_handlers (Key (g m)) w1)
      in (foldl (\<lambda>v h. exec h m v) w1 ks,
          \<lparr>handled = handled tr @ [m], calls = calls tr @ map (\<lambda>h. (h, m)) (gs @ ks)\<rparr>))"
  by (cases tr) (simp add: dispatch_def Let_def foldl_call_handler split: option.split)






lemma step_not_deferred:
  "buffer w = m # rest \<Longrightarrow> \<not> should_defer opts m w \<Longrightarrow>
    doWork_step exec opts (w, tr) = dispatch exec opts m (w\<lparr>buffer := rest\<rparr>, tr)"
  by (cases "shouldDefer opts") (simp_all add: doWork_step_def Let_def should_defer_def)





lemma enqueueWork_buffer: "buffer (enqueueWork w) = buffer w"
  by (simp add: enqueueWork_def setTimeout_def Let_def)








lemma stale_handle_step:
  "timers w = [] \<Longrightarrow> timeout w = Some h \<Longrightarrow> h \<noteq> 0 \<Longrightarrow>
   timers (apply_op exec opts w op) = [] \<and> timeout (apply_op exec opts w op) = Some h"
  by (cases op) (simp_all add: push_def enqueueWork_def falsy_handle_def stop_def clearTimeout_def clear_def fire_def)

lemma stale_handle_forever:
  "timers w = [] \<Longrightarrow> timeout w = Some h \<Longrightarrow> h \<noteq> 0 \<Longrightarrow>
   timers (foldl (apply_op exec opts) w ops) = [] \<and> timeout (foldl (apply_op exec opts) w ops) = Some h"
proof (induction ops arbitrary: w)
  case Nil
  then show ?case by simp
next
  case (Cons op ops)
  from stale_handle_step [OF Cons.prems, of exec opts op] show ?case
    using Cons.IH Cons.prems(3) by simp
qed

lemma stop_after_push:
  "stop (push a (new_worker v)) =
     \<lparr>buffer = [a], handlers = [], timeout = Some 1, timers = [], timer_seq = 1, world = v\<rparr>"
  by (simp add: push_def stop_def clearTimeout_def new_worker_def enqueueWork_def
      setTimeout_def falsy_handle_def Let_def)

text \<open>
  Claim C4 at \<^verbatim>\<open>push(a); stop(); push(b)\<close> on a new worker. The first push arms a timer,
  \<^verbatim>\<open>stop\<close> disarms it and keeps the buffer, but leaves the handle in \<^verbatim>\<open>this.timeout\<close>;
  \<^verbatim>\<open>#enqueueWork\<close> then takes a cycle to be pending: the second push appends and arms
  nothing, and no later push, stop, clear or timer arms a timer again. The rest of the
  claim holds of every worker: \<^verbatim>\<open>push\<close> appends, and arms a timer when \<^verbatim>\<open>this.timeout\<close>
  is unset; \<^verbatim>\<open>stop\<close> keeps the buffer and disarms the timer of \<^verbatim>\<open>this.timeout\<close>;
  \<^verbatim>\<open>clear\<close> empties the buffer.
\<close>

theorem push_after_stop_schedules_nothing:
  "timers (push a (new_worker v)) = [1]
   \<and> timers (stop (push a (new_worker v))) = []
   \<and> buffer (stop (push a (new_worker v))) = [a]
   \<and> buffer (push b (stop (push a (new_worker v)))) = [a, b]
   \<and> timers (push b (stop (push a (new_worker v)))) = []
   \<and> timers (foldl (apply_op exec opts) (stop (push a (new_worker v))) ops) = []
   \<and> buffer (push m w) = buffer w @ [m]
   \<and> timers (push m (w\<lparr>timeout := None\<rparr>)) = timers w @ [Suc (timer_seq w)]
   \<and> buffer (stop w) = buffer w
   \<and> h \<notin> set (timers (stop (w\<lparr>timeout := Some h\<rparr>)))
   \<and> buffer (clear w) = []"
proof -
  have "timers (foldl (apply_op exec opts) (stop (push a (new_worker v))) ops) = []"
    using stale_handle_forever [of "stop (push a (new_worker v))" 1 exec opts ops]
    by (simp add: stop_after_push)
  moreover have "timers (push a (new_worker v)) = [1]"
    by (simp add: push_def new_worker_def enqueueWork_def setTimeout_def falsy_handle_def Let_def)
  moreover have "buffer (push b (stop (push a (new_worker v)))) = [a, b]
      \<and> timers (push b (stop (push a (new_worker v)))) = []"
    by (simp only: stop_after_push) (simp add: push_def enqueueWork_def falsy_handle_def)
  moreover have "buffer (push m w) = buffer w @ [m]"
    by (simp add: push_def enqueueWork_buffer)
  moreover have "timers (push m (w\<lparr>timeout := None\<rparr>)) = timers w @ [Suc (timer_seq w)]"
    by (simp add: push_def enqueueWork_def setTimeout_def falsy_handle_def Let_def)
  moreover have "buffer (stop w) = buffer w"
    by (simp add: stop_def clearTimeout_def split: option.split)
  moreover have "h \<notin> set (timers (stop (w\<lparr>timeout := Some h\<rparr>)))"
    by (simp add: stop_def clearTimeout_def)
  moreover have "buffer (clear w) = []"
    by (simp add: clear_def)
  ultimately show ?thesis by (simp add: stop_after_push)
qed

lemma get_handlers_addHandler:
  "get_handlers k (addHandler k' h w) = (if k = k' then get_handlers k w @ [h] else get_handlers k w)"
  by (simp add: get_handlers_def addHandler_def update_conv')

lemma get_handlers_registrations:
  "get_handlers k (foldl (\<lambda>v r. addHandler (fst r) (snd r) v) w regs) =
     get_handlers k w @ map snd (filter (\<lambda>r. fst r = k) regs)"
  by (induction regs arbitrary: w) (simp_all add: get_handlers_addHandler)

text \<open>
  Claim C9. \<^verbatim>\<open>addHandler\<close> appends, so the handlers under a key are in registration
  order. A message that is not deferred is dispatched to the handlers under \<^verbatim>\<open>ANY\<close> in
  that order, each on the state the previous one left, then, when \<^verbatim>\<open>getKey\<close> is
  configured, to the handlers under the message's key in that order; without \<^verbatim>\<open>getKey\<close>
  to no others.
\<close>

theorem handlers_run_in_registration_order:
  "get_handlers k (foldl (\<lambda>v r. addHandler (fst r) (snd r) v) w regs) =
     get_handlers k w @ map snd (filter (\<lambda>r. fst r = k) regs)
   \<and> dispatch exec opts m (w, tr) =
     (let gs = get_handlers ANY w;
          w1 = foldl (\<lambda>v h. exec h m v) w gs;
          ks = (case getKey opts of None \<Rightarrow> [] | Some g \<Rightarrow> get_handlers (Key (g m)) w1)
      in (foldl (\<lambda>v h. exec h m v) w1 ks,
          \<lparr>handled = handled tr @ [m], calls = calls tr @ map (\<lambda>h. (h, m)) (gs @ ks)\<rparr>))
   \<and> (buffer w = m # rest \<and> \<not> should_defer opts m w \<longrightarrow>
        doWork_step exec opts (w, tr) = dispatch exec opts m (w\<lparr>buffer := rest\<rparr>, tr))"
  using get_handlers_registrations [of k w regs] dispatch_unfolded [of exec opts m w tr]
    step_not_deferred [of w m rest opts exec tr]
  by blast

lemma reg_worker_eq:
  "reg_worker = \<lparr>buffer = [''a''], handlers = [(ANY, [0, 2]), (Key ''a'', [1, 3])], timeout = Some 1,
                 timers = [1], timer_seq = 1, world = []\<rparr>"
  by (simp add: reg_worker_def push_def addHandler_def new_worker_def enqueueWork_def
      setTimeout_def falsy_handle_def get_handlers_def Let_def)

text \<open>
  C9 on the worker with the handlers 0 and 2 under \<^verbatim>\<open>ANY\<close> and 1 and 3 under \<open>''a''\<close>:
  the message \<open>''a''\<close> reaches 0, 2, 1, 3 in this order.
\<close>

theorem handlers_run_in_registration_order_witness:
  "buffer reg_worker = ''a'' # [] \<and> \<not> should_defer reg_opts ''a'' reg_worker
   \<and> calls (snd (doWork_step reg_exec reg_opts (reg_worker, no_trace))) =
        [(0, ''a''), (2, ''a''), (1, ''a''), (3, ''a'')]
   \<and> world (fst (doWork_step reg_exec reg_opts (reg_worker, no_trace))) = [0, 2, 1, 3]"
  using handlers_run_in_registration_order [where w = "reg_worker\<lparr>buffer := []\<rparr>" and m = "''a''"
      and exec = reg_exec and opts = reg_opts and tr = no_trace]
    handlers_run_in_registration_order [where w = reg_worker and m = "''a''" and rest = "[]"
      and exec = reg_exec and opts = reg_opts and tr = no_trace]
  by (simp add: reg_worker_eq should_defer_def reg_opts_def reg_exec_def get_handlers_def no_trace_def Let_def)

section \<open>Properties of the merged status view\<close>

lemma set_uniq: "set (uniq xs) = set xs"
  by (simp add: uniq_def)

lemma map_of_merge_fold:
  "map_of (foldl (\<lambda>mergedStatus url.
              case pick url of
                None \<Rightarrow> mergedStatus
              | Some thunkStatus \<Rightarrow> AList.update url thunkStatus mergedStatus) acc urls) u =
   (if u \<in> set urls then (case pick u of None \<Rightarrow> map_of acc u | Some st \<Rightarrow> Some st) else map_of acc u)"
  by (induction urls arbitrary: acc) (auto simp: update_conv' split: option.splits)

lemma map_of_mergeStatus:
  "map_of (mergeStatus statuses) url =
     (if url \<in> set (concat (map (map fst) statuses))
      then pick_status (map (\<lambda>s. map_of s url) statuses) else None)"
  unfolding mergeStatus_def
  by (simp only: map_of_merge_fold [where pick = "\<lambda>url. pick_status (map (\<lambda>s. map_of s url) statuses)"] set_uniq)
     (simp split: option.split)

lemma find_with_status_Some:
  "find_with_status k us = Some st \<longleftrightarrow>
     (\<exists>i<length us. us ! i = Some st \<and> status st = k \<and> (\<forall>j<i. \<forall>st'. us ! j = Some st' \<longrightarrow> status st' \<noteq> k))"
proof -
  let ?P = "\<lambda>s. case s of None \<Rightarrow> False | Some st \<Rightarrow> status st = k"
  have "find_with_status k us = Some st \<longleftrightarrow> List.find ?P us = Some (Some st)"
    by (auto simp: find_with_status_def split: option.splits)
  also have "\<dots> \<longleftrightarrow> (\<exists>i<length us. ?P (us ! i) \<and> Some st = us ! i \<and> (\<forall>j<i. \<not> ?P (us ! j)))"
    by (rule find_Some_iff)
  also have "\<dots> \<longleftrightarrow> (\<exists>i<length us. us ! i = Some st \<and> status st = k \<and> (\<forall>j<i. \<forall>st'. us ! j = Some st' \<longrightarrow> status st' \<noteq> k))"
    by (auto split: option.splits)
  finally show ?thesis .
qed

lemma find_with_status_None:
  "find_with_status k us = None \<longleftrightarrow> (\<forall>st. Some st \<in> set us \<longrightarrow> status st \<noteq> k)"
proof -
  let ?P = "\<lambda>s. case s of None \<Rightarrow> False | Some st \<Rightarrow> status st = k"
  have "find_with_status k us = None \<longleftrightarrow> List.find ?P us = None"
  proof
    assume "find_with_status k us = None"
    show "List.find ?P us = None"
    proof (cases "List.find ?P us")
      case None then show ?thesis .
    next
      case (Some r)
      then have "?P r" by (auto simp: find_Some_iff)
      then obtain st where "r = Some st" by (cases r) auto
      with Some \<open>find_with_status k us = None\<close> show ?thesis by (simp add: find_with_status_def)
    qed
  next
    assume "List.find ?P us = None" then show "find_with_status k us = None"
      by (simp add: find_with_status_def)
  qed
  also have "\<dots> \<longleftrightarrow> (\<forall>st. Some st \<in> set us \<longrightarrow> status st \<noteq> k)"
    by (auto simp: find_None_iff split: option.splits)
  finally show ?thesis .
qed

lemma severity_order_nth: "severity_order ! severity k = k"
  by (cases k) (simp_all add: severity_order_def)

lemma severity_lt: "severity k < length severity_order"
  by (cases k) (simp_all add: severity_order_def)

lemma severity_nth: "i < length severity_order \<Longrightarrow> severity (severity_order ! i) = i"
  by (auto simp: severity_order_def less_Suc_eq numeral_eq_Suc)

lemma find_with_status_present:
  "Some st \<in> set us \<Longrightarrow> find_with_status (status st) us \<noteq> None"
  using find_with_status_None [of "status st" us] by blast

lemma severity_order_mem: "k \<in> set severity_order"
  by (cases k) (simp_all add: severity_order_def)

lemma pick_status_Some:
  assumes "Some st0 \<in> set us"
  shows "\<exists>i st. i < length us \<and> us ! i = Some st \<and> pick_status us = Some st \<and>
           (\<forall>j<length us. \<forall>st'. us ! j = Some st' \<longrightarrow>
               severity (status st) \<le> severity (status st') \<and> (status st' = status st \<longrightarrow> i \<le> j))"
proof -
  let ?f = "\<lambda>k. find_with_status k us"
  let ?rs = "map ?f severity_order"
  have ex: "?f (status st0) \<noteq> None"
    using assms by (rule find_with_status_present)
  have "List.find (\<lambda>r. r \<noteq> None) ?rs \<noteq> None"
  proof
    assume "List.find (\<lambda>r. r \<noteq> None) ?rs = None"
    then have "\<not> (\<exists>x. x \<in> set ?rs \<and> x \<noteq> None)" by (simp only: find_None_iff not_False_eq_True)
    moreover have "?f (status st0) \<in> set ?rs"
      using severity_order_mem [of "status st0"] by simp
    ultimately show False using ex by blast
  qed
  then obtain r where r: "List.find (\<lambda>r. r \<noteq> None) ?rs = Some r" by blast
  then have "\<exists>n<length ?rs. (?rs ! n) \<noteq> None \<and> r = ?rs ! n \<and> (\<forall>j<n. \<not> (?rs ! j \<noteq> None))"
    by (simp only: find_Some_iff)
  then obtain n where n0: "n < length ?rs" "(?rs ! n) \<noteq> None"
      "r = ?rs ! n" "\<forall>j<n. \<not> (?rs ! j \<noteq> None)"
    by blast
  from n0(1) have nlen: "n < length severity_order" by simp
  have n2: "?f (severity_order ! n) \<noteq> None" using n0(2) nlen by simp
  have n3: "r = ?f (severity_order ! n)" using n0(3) nlen by simp
  have n4: "?f (severity_order ! j) = None" if "j < n" for j
  proof -
    from that nlen have "j < length severity_order" by simp
    then have "?rs ! j = ?f (severity_order ! j)" by simp
    moreover from n0(4) that have "?rs ! j = None" by simp
    ultimately show ?thesis by simp
  qed
  from n2 obtain st where st: "?f (severity_order ! n) = Some st" by blast
  then have "\<exists>i<length us. us ! i = Some st \<and> status st = severity_order ! n \<and>
      (\<forall>j<i. \<forall>st'. us ! j = Some st' \<longrightarrow> status st' \<noteq> severity_order ! n)"
    by (simp only: find_with_status_Some)
  then obtain i where i: "i < length us" "us ! i = Some st" "status st = severity_order ! n"
      "\<forall>j<i. \<forall>st'. us ! j = Some st' \<longrightarrow> status st' \<noteq> severity_order ! n"
    by blast
  have pick: "pick_status us = Some st"
    using r n3 st by (simp add: pick_status_def)
  have sev: "severity (status st) = n" using i(3) nlen by (simp add: severity_nth)
  have least: "severity (status st) \<le> severity (status st') \<and> (status st' = status st \<longrightarrow> i \<le> j)"
    if j: "j < length us" and st': "us ! j = Some st'" for j st'
  proof
    have "Some st' \<in> set us" using j st' nth_mem by metis
    then have "?f (status st') \<noteq> None" by (rule find_with_status_present)
    then have present: "?f (severity_order ! severity (status st')) \<noteq> None" by (simp add: severity_order_nth)
    have "\<not> severity (status st') < n"
    proof
      assume "severity (status st') < n"
      then have "?f (severity_order ! severity (status st')) = None" by (rule n4)
      with present show False by simp
    qed
    then show "severity (status st) \<le> severity (status st')" using sev by simp
    show "status st' = status st \<longrightarrow> i \<le> j"
    proof
      assume eq: "status st' = status st"
      show "i \<le> j"
      proof (rule ccontr)
        assume "\<not> i \<le> j"
        then have "j < i" by simp
        with i(4) st' have "status st' \<noteq> severity_order ! n" by blast
        with eq i(3) show False by simp
      qed
    qed
  qed
  show ?thesis
  proof (intro exI conjI)
    show "i < length us" by (rule i(1))
    show "us ! i = Some st" by (rule i(2))
    show "pick_status us = Some st" by (rule pick)
    show "\<forall>j<length us. \<forall>st'. us ! j = Some st' \<longrightarrow>
               severity (status st) \<le> severity (status st') \<and> (status st' = status st \<longrightarrow> i \<le> j)"
      using least by blast
  qed
qed

lemma url_in_member:
  assumes "url \<in> set (concat (map (map fst) statuses))"
  shows "\<exists>st0. Some st0 \<in> set (map (\<lambda>s. map_of s url) statuses)"
proof -
  from assms obtain s where s: "s \<in> set statuses" "url \<in> fst ` set s" by auto
  then obtain v where "(url, v) \<in> set s" by auto
  then obtain st0 where "map_of s url = Some st0"
    using weak_map_of_SomeI by fastforce
  then have "Some st0 = (\<lambda>s. map_of s url) s" by simp
  then have "Some st0 \<in> (\<lambda>s. map_of s url) ` set statuses" using s(1) by (rule image_eqI)
  then show ?thesis by auto
qed

lemma merge_two:
  "map_of (mergeStatus [[(u, x)], [(u, y)]]) u = pick_status [Some x, Some y]"
  by (simp add: map_of_mergeStatus)

text \<open>
  Claim C1. For an endpoint that some member's mapping has, the merged view holds the
  status of a member \<open>i\<close> for that endpoint such that no member has a status for it that
  comes earlier in the order Aborted, Failure, Timeout, Pending, Success, and no member
  before \<open>i\<close> has a status of the same kind for it. In particular Success and Pending
  merge to Pending, Success and Aborted to Aborted, Failure and Timeout to Failure, in
  either member order.
\<close>

theorem mergeStatus_most_severe_first_member:
  "(url \<in> set (concat (map (map fst) statuses)) \<longrightarrow>
      (\<exists>i st. i < length statuses \<and> map_of (statuses ! i) url = Some st \<and>
          map_of (mergeStatus statuses) url = Some st \<and>
          (\<forall>j<length statuses. \<forall>st'. map_of (statuses ! j) url = Some st' \<longrightarrow>
              severity (status st) \<le> severity (status st') \<and> (status st' = status st \<longrightarrow> i \<le> j))))
   \<and> map_of (mergeStatus [[(u, \<lparr>message = a, status = Success\<rparr>)], [(u, \<lparr>message = b, status = Pending\<rparr>)]]) u
        = Some \<lparr>message = b, status = Pending\<rparr>
   \<and> map_of (mergeStatus [[(u, \<lparr>message = b, status = Pending\<rparr>)], [(u, \<lparr>message = a, status = Success\<rparr>)]]) u
        = Some \<lparr>message = b, status = Pending\<rparr>
   \<and> map_of (mergeStatus [[(u, \<lparr>message = a, status = Success\<rparr>)], [(u, \<lparr>message = b, status = Aborted\<rparr>)]]) u
        = Some \<lparr>message = b, status = Aborted\<rparr>
   \<and> map_of (mergeStatus [[(u, \<lparr>message = b, status = Aborted\<rparr>)], [(u, \<lparr>message = a, status = Success\<rparr>)]]) u
        = Some \<lparr>message = b, status = Aborted\<rparr>
   \<and> map_of (mergeStatus [[(u, \<lparr>message = a, status = Failure\<rparr>)], [(u, \<lparr>message = b, status = Timeout\<rparr>)]]) u
        = Some \<lparr>message = a, status = Failure\<rparr>
   \<and> map_of (mergeStatus [[(u, \<lparr>message = b, status = Timeout\<rparr>)], [(u, \<lparr>message = a, status = Failure\<rparr>)]]) u
        = Some \<lparr>message = a, status = Failure\<rparr>"
proof (intro conjI impI)
  assume url: "url \<in> set (concat (map (map fst) statuses))"
  let ?us = "map (\<lambda>s. map_of s url) statuses"
  from url have "\<exists>st0. Some st0 \<in> set ?us" by (rule url_in_member)
  then obtain st0 where st0: "Some st0 \<in> set ?us" ..
  show "\<exists>i st. i < length statuses \<and> map_of (statuses ! i) url = Some st \<and>
          map_of (mergeStatus statuses) url = Some st \<and>
          (\<forall>j<length statuses. \<forall>st'. map_of (statuses ! j) url = Some st' \<longrightarrow>
              severity (status st) \<le> severity (status st') \<and> (status st' = status st \<longrightarrow> i \<le> j))"
    using pick_status_Some [OF st0] url
    by (simp add: map_of_mergeStatus cong: conj_cong)
qed (simp_all add: merge_two pick_status_def find_with_status_def severity_order_def)

text \<open>
  C1 on three members: the second member's Aborted wins over the first member's Success
  and, being first in member order, over the third member's Aborted.
\<close>

theorem mergeStatus_most_severe_first_member_witness:
  "''wss://a'' \<in> set (concat (map (map fst) two_members))
   \<and> map_of (mergeStatus two_members) ''wss://a'' = Some \<lparr>message = ''Publish was aborted'', status = Aborted\<rparr>
   \<and> (\<exists>i st. i < length two_members \<and> map_of (two_members ! i) ''wss://a'' = Some st \<and>
          map_of (mergeStatus two_members) ''wss://a'' = Some st \<and>
          (\<forall>j<length two_members. \<forall>st'. map_of (two_members ! j) ''wss://a'' = Some st' \<longrightarrow>
              severity (status st) \<le> severity (status st') \<and> (status st' = status st \<longrightarrow> i \<le> j)))"
proof -
  have h: "''wss://a'' \<in> set (concat (map (map fst) two_members))"
    by (simp add: two_members_def)
  have v: "map_of (mergeStatus two_members) ''wss://a'' = Some \<lparr>message = ''Publish was aborted'', status = Aborted\<rparr>"
    by (simp add: map_of_mergeStatus h) (simp add: two_members_def pick_status_def find_with_status_def severity_order_def)
  have "''wss://a'' \<in> set (concat (map (map fst) two_members)) \<longrightarrow>
      (\<exists>i st. i < length two_members \<and> map_of (two_members ! i) ''wss://a'' = Some st \<and>
          map_of (mergeStatus two_members) ''wss://a'' = Some st \<and>
          (\<forall>j<length two_members. \<forall>st'. map_of (two_members ! j) ''wss://a'' = Some st' \<longrightarrow>
              severity (status st) \<le> severity (status st') \<and> (status st' = status st \<longrightarrow> i \<le> j)))"
    using mergeStatus_most_severe_first_member [of "''wss://a''" two_members] by (rule conjunct1)
  with h have "\<exists>i st. i < length two_members \<and> map_of (two_members ! i) ''wss://a'' = Some st \<and>
          map_of (mergeStatus two_members) ''wss://a'' = Some st \<and>
          (\<forall>j<length two_members. \<forall>st'. map_of (two_members ! j) ''wss://a'' = Some st' \<longrightarrow>
              severity (status st) \<le> severity (status st') \<and> (status st' = status st \<longrightarrow> i \<le> j))"
    by (rule rev_mp)
  with h v show ?thesis by (intro conjI)
qed

section \<open>Properties of event completion\<close>

lemma stage_frames:
  "isStampedEvent (stamp e n)" "isStampedEvent (own e pk) = isStampedEvent e"
  "isStampedEvent (hash env e) = isStampedEvent e"
  "isOwnedEvent (stamp e n) = isOwnedEvent e" "isOwnedEvent (hash env e) = isOwnedEvent e"
  "isHashedEvent (stamp e n) = isHashedEvent e" "isHashedEvent (own e pk) = isHashedEvent e"
  "isHashedEvent (hash env e)"
  "id' (stamp e n) = id' e" "id' (own e pk) = id' e"
  "created_at (own e pk) = created_at e" "created_at (hash env e) = created_at e"
  "pubkey (stamp e n) = pubkey e" "pubkey (own e pk) = pk" "pubkey (hash env e) = pubkey e"
  by (simp_all add: isStampedEvent_def isOwnedEvent_def isHashedEvent_def stamp_def own_def hash_def)

lemma own_same: "pubkey e = pk \<Longrightarrow> own e pk = e"
  by (simp add: own_def)

lemma prepEvent_fixed:
  "isStampedEvent e \<Longrightarrow> isHashedEvent e \<Longrightarrow> isOwnedEvent e \<or> pubkey e = session_pubkey env \<Longrightarrow>
     prepEvent env e = e"
  by (auto simp: prepEvent_def stage_frames own_same)

lemma prepEvent_stamped: "isStampedEvent (prepEvent env e)"
  by (simp add: prepEvent_def Let_def stage_frames)

lemma prepEvent_hashed: "isHashedEvent (prepEvent env e)"
  by (simp add: prepEvent_def Let_def stage_frames)

lemma prepEvent_owned: "isOwnedEvent (prepEvent env e) \<or> pubkey (prepEvent env e) = session_pubkey env"
  by (simp add: prepEvent_def Let_def stage_frames)

lemma prepEvent_owned_session: "isOwnedEvent (prepEvent (env\<lparr>session_pubkey := Some pk\<rparr>) e)"
  using prepEvent_owned [of "env\<lparr>session_pubkey := Some pk\<rparr>" e]
  by (auto simp: isOwnedEvent_def)

lemma prepEvent_again_same_session: "prepEvent (env\<lparr>clock := c, digest := d\<rparr>) (prepEvent env e) = prepEvent env e"
  using prepEvent_owned [of env e]
  by (intro prepEvent_fixed prepEvent_stamped prepEvent_hashed) simp

lemma prepEvent_again_owned: "prepEvent env2 (prepEvent (env\<lparr>session_pubkey := Some pk\<rparr>) e) = prepEvent (env\<lparr>session_pubkey := Some pk\<rparr>) e"
  by (intro prepEvent_fixed prepEvent_stamped prepEvent_hashed disjI1 prepEvent_owned_session)

lemma prepEvent_again_id: "id' (prepEvent env2 (prepEvent env e)) = id' (prepEvent env e)"
  using prepEvent_hashed [of env e] prepEvent_stamped [of env e]
  by (simp add: prepEvent_def [of env2] Let_def stage_frames)

lemma prepEvent_again_created_at: "created_at (prepEvent env2 (prepEvent env e)) = created_at (prepEvent env e)"
  using prepEvent_hashed [of env e] prepEvent_stamped [of env e]
  by (simp add: prepEvent_def [of env2] Let_def stage_frames)

text \<open>
  Claim C5. Completing a completed event again gives the same event when the session key
  is the same, whatever the clock and the hash function are by then, and also under any
  other environment when the first completion had a session key to attribute. In every
  case the identity and the creation time of the first completion are kept, and the
  stamping and hashing stages are satisfied after one completion. A stage that is already
  satisfied is skipped: a creation time, a publisher key or an identity that the event
  has is the one that the completed event has.
\<close>

theorem prepEvent_idempotent:
  "prepEvent (env\<lparr>clock := c, digest := d\<rparr>) (prepEvent env e) = prepEvent env e
   \<and> prepEvent env2 (prepEvent (env\<lparr>session_pubkey := Some pk\<rparr>) e) = prepEvent (env\<lparr>session_pubkey := Some pk\<rparr>) e
   \<and> id' (prepEvent env2 (prepEvent env e)) = id' (prepEvent env e)
   \<and> created_at (prepEvent env2 (prepEvent env e)) = created_at (prepEvent env e)
   \<and> isStampedEvent (prepEvent env e) \<and> isHashedEvent (prepEvent env e)
   \<and> isOwnedEvent (prepEvent (env\<lparr>session_pubkey := Some pk\<rparr>) e)
   \<and> created_at (prepEvent env (stamp e n)) = Some n
   \<and> pubkey (prepEvent env (own e (Some pk))) = Some pk
   \<and> id' (prepEvent env (e\<lparr>id' := Some i\<rparr>)) = Some i"
proof -
  have "created_at (prepEvent env (stamp e n)) = Some n"
    by (simp add: prepEvent_def Let_def stage_frames) (simp add: stamp_def)
  moreover have "pubkey (prepEvent env (own e (Some pk))) = Some pk"
    by (simp add: prepEvent_def Let_def stage_frames isOwnedEvent_def)
  moreover have "id' (prepEvent env (e\<lparr>id' := Some i\<rparr>)) = Some i"
    by (simp add: prepEvent_def Let_def stage_frames isHashedEvent_def)
  ultimately show ?thesis
    by (intro conjI prepEvent_again_same_session prepEvent_again_owned prepEvent_again_id
        prepEvent_again_created_at prepEvent_stamped prepEvent_hashed prepEvent_owned_session)
qed

section \<open>Properties of the dispatch\<close>

lemma start_publish_tracker: "tracker (snd (start_publish s)) = tracker (snd s)"
  by (simp add: start_publish_def raise_out_def Let_def split: option.split)
lemma after_sign_tracker: "tracker (snd (after_sign s)) = tracker (snd s)"
  by (simp add: after_sign_def start_publish_tracker split: option.split)
lemma abort_tracker: "tracker (snd (abort_controller s)) = tracker (snd s)"
  by (simp add: abort_controller_def)

text \<open>
  Claim C10. The handler of a Success notification sets the endpoint's status to Success
  with the notification's message and gives the pair of the event identity and the
  endpoint to the tracker; the handlers of Failure, Timeout, Aborted and Complete leave
  the tracker as it is. Over a whole step of the dispatch, the tracker grows by exactly
  the pair of a Success notification that arrives while the unit is subscribed.
\<close>

theorem success_is_tracked:
  "tracker (snd (on_notification (OnSuccess i msg url) (t, sh))) = tracker sh @ [(i, url)]
   \<and> map_of (statusByUrl (fst (on_notification (OnSuccess i msg url) (t, sh)))) url
        = Some \<lparr>message = msg, status = Success\<rparr>
   \<and> tracker (snd (on_notification (OnFailure i msg url) (t, sh))) = tracker sh
   \<and> tracker (snd (on_notification (OnTimeout url) (t, sh))) = tracker sh
   \<and> tracker (snd (on_notification (OnAborted url) (t, sh))) = tracker sh
   \<and> tracker (snd (on_notification OnComplete (t, sh))) = tracker sh
   \<and> tracker (snd (step e s)) = tracker (snd s) @ (if phase (fst s) = Publishing then success_pair e else [])"
proof -
  have "tracker (snd (step e s)) = tracker (snd s) @ (if phase (fst s) = Publishing then success_pair e else [])"
  proof (cases e)
    case (Notify n)
    then show ?thesis by (cases n) simp_all
  next
    case (SignReturns r)
    then show ?thesis
      by (simp add: after_sign_tracker fail_stop_def raise_out_def split: sign_result.split option.split)
  next
    case (Continue found)
    then show ?thesis
      by (simp add: after_sign_tracker fail_stop_def raise_out_def split: option.split)
  qed (simp_all add: start_publish_tracker abort_tracker)
  then show ?thesis by (simp add: assoc_status_def update_conv')
qed

lemma run_snoc: "run (evs @ [e]) s = step e (run evs s)"
  by (simp add: run_def)

lemma run_append: "run (evs @ evs') s = run evs' (run evs s)"
  by (simp add: run_def)

text \<open>What the parts of a step keep: the result, the request, the abort flag.\<close>

lemma start_publish_result: "result (fst (start_publish s)) = result (fst s)"
  by (simp add: start_publish_def raise_out_def Let_def split: option.split)

lemma after_sign_result: "result (fst (after_sign s)) = result (fst s)"
  by (simp add: after_sign_def start_publish_result split: option.split)

lemma step_result:
  "result (fst (step e s)) =
     (if e = Notify OnComplete \<and> phase (fst s) = Publishing
      then resolve (statusByUrl (fst s)) (result (fst s)) else result (fst s))"
proof (cases e)
  case Abort
  then show ?thesis by (simp add: abort_controller_def)
next
  case ProcessItem
  then show ?thesis by (simp add: processItem_def)
next
  case (Continue found)
  then show ?thesis
    by (simp add: after_sign_result fail_stop_def raise_out_def fail_def split: option.split)
next
  case (SignReturns r)
  then show ?thesis
    by (simp add: after_sign_result fail_stop_def raise_out_def fail_def split: sign_result.split option.split)
next
  case Wake
  then show ?thesis by (simp add: start_publish_result)
next
  case (Notify n)
  then show ?thesis by (cases n) (simp_all add: assoc_status_def)
qed

lemma start_publish_request: "request (fst (start_publish s)) = request (fst s)"
  by (simp add: start_publish_def raise_out_def Let_def split: option.split)

lemma after_sign_request: "request (fst (after_sign s)) = request (fst s)"
  by (simp add: after_sign_def start_publish_request split: option.split)

lemma step_request: "request (fst (step e s)) = request (fst s)"
proof (cases e)
  case Abort
  then show ?thesis by (simp add: abort_controller_def)
next
  case ProcessItem
  then show ?thesis by (simp add: processItem_def)
next
  case (Continue found)
  then show ?thesis
    by (simp add: after_sign_request fail_stop_def raise_out_def fail_def split: option.split)
next
  case (SignReturns r)
  then show ?thesis
    by (simp add: after_sign_request fail_stop_def raise_out_def fail_def split: sign_result.split option.split)
next
  case Wake
  then show ?thesis by (simp add: start_publish_request)
next
  case (Notify n)
  then show ?thesis by (cases n) (simp_all add: assoc_status_def)
qed

lemma run_request: "request (fst (run evs s)) = request (fst s)"
  by (induction evs rule: rev_induct) (simp_all add: run_def step_request)




text \<open>
  An exception leaves the dispatch only on a settlement of the signer that \<open>raises\<close>
  describes: until one happens, \<^verbatim>\<open>event\<close> holds an event and nothing is uncaught.
\<close>

lemma start_publish_no_raise:
  "\<not> uncaught (fst s) \<Longrightarrow> sending (fst s) \<noteq> None \<Longrightarrow>
   \<not> uncaught (fst (start_publish s)) \<and> sending (fst (start_publish s)) \<noteq> None"
  by (auto simp: start_publish_def Let_def)

lemma after_sign_no_raise:
  "\<not> uncaught (fst s) \<Longrightarrow> sending (fst s) \<noteq> None \<Longrightarrow>
   \<not> uncaught (fst (after_sign s)) \<and> sending (fst (after_sign s)) \<noteq> None"
  using start_publish_no_raise [of s] by (auto simp: after_sign_def split: option.split)

lemma step_no_raise:
  assumes "\<not> uncaught (fst s)" and "sending (fst s) \<noteq> None" and "\<not> raises e"
  shows "\<not> uncaught (fst (step e s)) \<and> sending (fst (step e s)) \<noteq> None"
proof (cases e)
  case Abort
  then show ?thesis using assms by (simp add: abort_controller_def)
next
  case ProcessItem
  then show ?thesis using assms by (simp add: processItem_def isUnwrappedEvent_def)
next
  case (Continue found)
  then show ?thesis using assms after_sign_no_raise [of s]
    by (auto simp: fail_stop_def fail_def split: if_splits)
next
  case (SignReturns r)
  show ?thesis
  proof (cases r)
    case (SignOk signed)
    with assms SignReturns have "signed \<noteq> None" by simp
    then have "\<not> uncaught (fst (after_sign ((fst s)\<lparr>sending := signed\<rparr>, snd s)))
        \<and> sending (fst (after_sign ((fst s)\<lparr>sending := signed\<rparr>, snd s))) \<noteq> None"
      using assms(1) by (intro after_sign_no_raise) simp_all
    then show ?thesis using SignReturns SignOk assms by simp
  next
    case (SignErr err)
    with assms SignReturns have "error_message err \<noteq> None" by simp
    then show ?thesis using SignReturns SignErr assms by (auto simp: fail_stop_def fail_def)
  qed
next
  case Wake
  then show ?thesis using assms start_publish_no_raise [of s] by simp
next
  case (Notify n)
  then show ?thesis using assms by (cases n) (simp_all add: assoc_status_def)
qed

lemma run_no_raise:
  "\<not> uncaught (fst s) \<Longrightarrow> sending (fst s) \<noteq> None \<Longrightarrow> \<forall>e \<in> set evs. \<not> raises e \<Longrightarrow>
   \<not> uncaught (fst (run evs s)) \<and> sending (fst (run evs s)) \<noteq> None"
proof (induction evs rule: rev_induct)
  case Nil
  then show ?case by (simp add: run_def)
next
  case (snoc e evs)
  then have ih: "\<not> uncaught (fst (run evs s))" "sending (fst (run evs s)) \<noteq> None" and ne: "\<not> raises e"
    by simp_all
  show ?case using step_no_raise [OF ih ne] by (simp add: run_snoc)
qed




lemma resolve_not_rejected: "\<not> is_rejected d \<Longrightarrow> \<not> is_rejected (resolve v d)"
  by (cases d) (simp_all add: is_rejected_def resolve_def)

lemma run_not_rejected:
  "\<not> is_rejected (result (fst s)) \<Longrightarrow> \<not> is_rejected (result (fst (run evs s)))"
proof (induction evs rule: rev_induct)
  case Nil
  then show ?case by (simp add: run_def)
next
  case (snoc e evs)
  then show ?case by (simp add: run_snoc step_result resolve_not_rejected)
qed

text \<open>The mappings that \<^verbatim>\<open>fail\<close> and \<^verbatim>\<open>fromPairs\<close> build.\<close>

lemma map_of_fold_update:
  "map_of (foldl (\<lambda>st url. AList.update url v st) acc urls) u =
     (if u \<in> set urls then Some v else map_of acc u)"
  by (induction urls arbitrary: acc) (auto simp: update_conv')

lemma map_of_fail:
  "map_of (statusByUrl (fail msg t)) u =
     (if u \<in> set (relays (request t)) then Some \<lparr>message = msg, status = Failure\<rparr> else None)"
  by (simp add: fail_def map_of_fold_update)

lemma map_of_fold_pairs:
  "map_of (foldl (\<lambda>obj kv. if fst kv = [] then obj else AList.update (fst kv) (snd kv) obj) acc
             (map (\<lambda>url. (url, v)) urls)) u =
     (if u \<in> set urls \<and> u \<noteq> [] then Some v else map_of acc u)"
  by (induction urls arbitrary: acc) (auto simp: update_conv')

lemma map_of_fromPairs:
  "map_of (fromPairs (map (\<lambda>url. (url, v)) urls)) u = (if u \<in> set urls \<and> u \<noteq> [] then Some v else None)"
  by (simp add: fromPairs_def map_of_fold_pairs)

lemma kind_at_unset: "statusByUrl t = [] \<Longrightarrow> kind_at u t = None"
  by (simp add: kind_at_def)

lemma stage_of_terminal: "k \<noteq> Pending \<Longrightarrow> stage_of (Some k) = 2"
  by (cases k) simp_all

lemma stage_of_le_2: "stage_of x \<le> 2"
  by (cases x rule: stage_of.cases) simp_all

lemma kind_at_assoc:
  "kind_at u (assoc_status url v t) = (if u = url then Some (status v) else kind_at u t)"
  by (simp add: kind_at_def assoc_status_def update_conv')

text \<open>A mapping is written only when the dispatch stops or subscribes.\<close>

lemma start_publish_phase:
  "phase (fst (start_publish s)) = Publishing \<or> phase (fst (start_publish s)) = Stopped"
  by (simp add: start_publish_def raise_out_def Let_def split: option.split)

lemma start_publish_quiet: "subscribed_or_unset (fst (start_publish s))"
  using start_publish_phase [of s] by (auto simp: subscribed_or_unset_def)

lemma after_sign_quiet: "statusByUrl (fst s) = [] \<Longrightarrow> subscribed_or_unset (fst (after_sign s))"
proof (cases "delay (request (fst s)) = None \<or> delay (request (fst s)) = Some 0")
  case True
  then have "after_sign s = start_publish s" by (auto simp: after_sign_def)
  then show ?thesis by (simp add: start_publish_quiet)
next
  case False
  assume "statusByUrl (fst s) = []"
  with False show ?thesis by (auto simp: after_sign_def subscribed_or_unset_def)
qed

lemma on_notification_phase: "phase (fst (on_notification n s)) = phase (fst s)"
  by (cases n) (simp_all add: assoc_status_def)

lemma quiet_unset:
  "subscribed_or_unset t \<Longrightarrow> phase t \<noteq> Publishing \<Longrightarrow> phase t \<noteq> Stopped \<Longrightarrow> statusByUrl t = []"
  by (simp add: subscribed_or_unset_def)

lemma step_quiet:
  assumes q: "subscribed_or_unset (fst s)"
  shows "subscribed_or_unset (fst (step e s))"
proof (cases e)
  case Abort
  then show ?thesis using q by (simp add: abort_controller_def subscribed_or_unset_def)
next
  case ProcessItem
  then show ?thesis using q by (auto simp: processItem_def subscribed_or_unset_def)
next
  case (Continue found)
  show ?thesis
  proof (cases "phase (fst s) = Scheduled")
    case False
    then show ?thesis using q Continue by simp
  next
    case True
    then have unset: "statusByUrl (fst s) = []" using q by (simp add: quiet_unset)
    show ?thesis using Continue True unset after_sign_quiet [OF unset]
      by (simp add: subscribed_or_unset_def fail_stop_def raise_out_def split: option.split)
  qed
next
  case (SignReturns r)
  show ?thesis
  proof (cases "phase (fst s) = Signing")
    case False
    then show ?thesis using q SignReturns by simp
  next
    case True
    then have unset: "statusByUrl (fst s) = []" using q by (simp add: quiet_unset)
    show ?thesis
    proof (cases r)
      case (SignOk signed)
      have "subscribed_or_unset (fst (after_sign ((fst s)\<lparr>sending := signed\<rparr>, snd s)))"
        using unset by (intro after_sign_quiet) simp
      then show ?thesis using SignReturns SignOk True by simp
    next
      case (SignErr err)
      then show ?thesis using SignReturns True
        by (simp add: subscribed_or_unset_def fail_stop_def raise_out_def split: option.split)
    qed
  qed
next
  case Wake
  then show ?thesis using q by (simp add: start_publish_quiet)
next
  case (Notify n)
  then show ?thesis using q
    by (auto simp: subscribed_or_unset_def on_notification_phase)
qed

lemma run_quiet: "subscribed_or_unset (fst s) \<Longrightarrow> subscribed_or_unset (fst (run evs s))"
  by (induction evs rule: rev_induct) (simp_all add: run_def step_quiet)

lemma makeThunk_quiet: "subscribed_or_unset (makeThunk env req)"
  by (simp add: makeThunk_def subscribed_or_unset_def Let_def)

lemma step_stage_unset:
  "statusByUrl (fst s) = [] \<Longrightarrow> stage_of (kind_at u (fst s)) \<le> stage_of (kind_at u (fst (step e s)))"
  by (simp add: kind_at_unset)

lemma on_notification_stage:
  "stage_of (kind_at u (fst s)) \<le> stage_of (kind_at u (fst (on_notification n s)))"
proof (cases n)
  case OnComplete
  then show ?thesis by (simp add: kind_at_def)
qed (simp_all add: kind_at_assoc stage_of_le_2)

lemma step_stage:
  assumes "subscribed_or_unset (fst s)"
  shows "stage_of (kind_at u (fst s)) \<le> stage_of (kind_at u (fst (step e s)))"
proof (cases "statusByUrl (fst s) = []")
  case True
  then show ?thesis by (rule step_stage_unset)
next
  case False
  with assms have ph: "phase (fst s) = Publishing \<or> phase (fst s) = Stopped"
    by (simp add: subscribed_or_unset_def)
  show ?thesis
  proof (cases e)
    case Abort
    then show ?thesis by (simp add: abort_controller_def kind_at_def)
  next
    case (Notify n)
    then show ?thesis by (simp add: on_notification_stage)
  qed (use ph in auto)
qed

lemma step_unnotified:
  assumes "phase (fst s) = Publishing \<or> phase (fst s) = Stopped" and "\<not> notifies u e"
  shows "map_of (statusByUrl (fst (step e s))) u = map_of (statusByUrl (fst s)) u"
proof (cases e)
  case Abort
  then show ?thesis by (simp add: abort_controller_def)
next
  case (Notify n)
  then show ?thesis using assms(2) by (cases n) (auto simp: assoc_status_def update_conv')
qed (use assms(1) in auto)

lemma step_aborted_idle:
  assumes "aborted (fst s)" and "phase (fst s) = Queued \<or> phase (fst s) = Delaying \<or> phase (fst s) = Stopped"
  shows "aborted (fst (step e s)) \<and>
         (phase (fst (step e s)) = Queued \<or> phase (fst (step e s)) = Delaying \<or> phase (fst (step e s)) = Stopped) \<and>
         statusByUrl (fst (step e s)) = statusByUrl (fst s) \<and> result (fst (step e s)) = result (fst s)"
proof (cases e)
  case Abort
  then show ?thesis using assms by (simp add: abort_controller_def)
next
  case ProcessItem
  then show ?thesis using assms by (auto simp: processItem_def)
next
  case Wake
  then show ?thesis using assms by (auto simp: start_publish_def)
qed (use assms in auto)

lemma run_aborted_idle:
  assumes "aborted (fst s)" and "phase (fst s) = Queued \<or> phase (fst s) = Delaying \<or> phase (fst s) = Stopped"
  shows "aborted (fst (run evs s)) \<and>
         (phase (fst (run evs s)) = Queued \<or> phase (fst (run evs s)) = Delaying \<or> phase (fst (run evs s)) = Stopped) \<and>
         statusByUrl (fst (run evs s)) = statusByUrl (fst s) \<and> result (fst (run evs s)) = result (fst s)"
proof (induction evs rule: rev_induct)
  case Nil
  show ?case using assms by (simp add: run_def)
next
  case (snoc e evs)
  then show ?case using step_aborted_idle [of "run evs s" e] by (simp add: run_snoc)
qed

lemma step_phase_late:
  "phase (fst s) = Publishing \<or> phase (fst s) = Stopped \<Longrightarrow>
   phase (fst (step e s)) = Publishing \<or> phase (fst (step e s)) = Stopped"
proof (cases e)
  case Abort
  then show "phase (fst s) = Publishing \<or> phase (fst s) = Stopped \<Longrightarrow> ?thesis" by (simp add: abort_controller_def)
next
  case (Notify n)
  then show "phase (fst s) = Publishing \<or> phase (fst s) = Stopped \<Longrightarrow> ?thesis"
    by (auto simp: on_notification_phase)
qed auto

lemma run_stage:
  "subscribed_or_unset (fst s) \<Longrightarrow> stage_of (kind_at u (fst s)) \<le> stage_of (kind_at u (fst (run evs s)))"
proof (induction evs rule: rev_induct)
  case Nil
  show ?case by (simp add: run_def)
next
  case (snoc e evs)
  have "stage_of (kind_at u (fst (run evs s))) \<le> stage_of (kind_at u (fst (step e (run evs s))))"
    using snoc.prems by (intro step_stage run_quiet)
  with snoc show ?case by (simp add: run_snoc)
qed

lemma run_unnotified:
  "phase (fst s) = Publishing \<or> phase (fst s) = Stopped \<Longrightarrow> \<forall>e \<in> set evs. \<not> notifies u e \<Longrightarrow>
     (phase (fst (run evs s)) = Publishing \<or> phase (fst (run evs s)) = Stopped) \<and>
     map_of (statusByUrl (fst (run evs s))) u = map_of (statusByUrl (fst s)) u"
proof (induction evs rule: rev_induct)
  case Nil
  then show ?case by (simp add: run_def)
next
  case (snoc e evs)
  then have ih: "(phase (fst (run evs s)) = Publishing \<or> phase (fst (run evs s)) = Stopped)"
      "map_of (statusByUrl (fst (run evs s))) u = map_of (statusByUrl (fst s)) u" by simp_all
  from snoc.prems have ne: "\<not> notifies u e" by simp
  show ?case
    using step_phase_late [OF ih(1), of e] step_unnotified [OF ih(1) ne] ih(2)
    by (simp add: run_snoc)
qed

text \<open>
  A subscribed unit has an entry for every requested endpoint with a non-empty name, and
  a unit that is not subscribed writes its mapping through \<^verbatim>\<open>fail\<close> or as Pending only.
\<close>

lemma start_publish_entered: "all_entered (fst (start_publish s))"
  by (simp add: start_publish_def raise_out_def Let_def all_entered_def list_all_iff map_of_fromPairs
      split: option.split)

lemma after_sign_entered: "phase (fst s) \<noteq> Publishing \<Longrightarrow> all_entered (fst (after_sign s))"
  using start_publish_entered [of s] by (auto simp: after_sign_def all_entered_def split: option.split)

lemma on_notification_entered:
  assumes "all_entered (fst s)"
  shows "all_entered (fst (on_notification n s))"
proof (cases n)
  case OnComplete
  then show ?thesis using assms by (simp add: all_entered_def)
qed (use assms in \<open>auto simp: all_entered_def assoc_status_def list_all_iff update_conv'\<close>)

lemma step_entered:
  assumes "all_entered (fst s)"
  shows "all_entered (fst (step e s))"
proof (cases e)
  case Abort
  then show ?thesis using assms by (simp add: abort_controller_def all_entered_def)
next
  case ProcessItem
  then show ?thesis using assms by (auto simp: processItem_def all_entered_def)
next
  case (Continue found)
  then show ?thesis using assms after_sign_entered [of s]
    by (auto simp: all_entered_def fail_stop_def raise_out_def split: option.split)
next
  case (SignReturns r)
  show ?thesis
  proof (cases "phase (fst s) = Signing")
    case False
    then show ?thesis using assms SignReturns by simp
  next
    case True
    show ?thesis
    proof (cases r)
      case (SignOk signed)
      have "all_entered (fst (after_sign ((fst s)\<lparr>sending := signed\<rparr>, snd s)))"
        using True by (intro after_sign_entered) simp
      then show ?thesis using SignReturns SignOk True by simp
    next
      case (SignErr err)
      then show ?thesis using SignReturns True
        by (simp add: all_entered_def fail_stop_def raise_out_def split: option.split)
    qed
  qed
next
  case Wake
  then show ?thesis using assms by (simp add: start_publish_entered)
next
  case (Notify n)
  then show ?thesis using assms by (simp add: on_notification_entered)
qed

lemma run_entered: "all_entered (fst s) \<Longrightarrow> all_entered (fst (run evs s))"
  by (induction evs rule: rev_induct) (simp_all add: run_def step_entered)

lemma makeThunk_entered: "all_entered (makeThunk env req)"
  by (simp add: makeThunk_def all_entered_def Let_def)

lemma start_publish_writes:
  "kind_at u (fst (start_publish s)) = kind_at u (fst s) \<or> kind_at u (fst (start_publish s)) = None
   \<or> kind_at u (fst (start_publish s)) = Some Pending"
  by (simp add: start_publish_def raise_out_def Let_def kind_at_def map_of_fromPairs split: option.split)

lemma after_sign_writes:
  "kind_at u (fst (after_sign s)) = kind_at u (fst s) \<or> kind_at u (fst (after_sign s)) = None
   \<or> kind_at u (fst (after_sign s)) = Some Pending"
  using start_publish_writes [of u s] by (auto simp: after_sign_def kind_at_def split: option.split)

lemma fail_stop_writes:
  "kind_at u (fst (fail_stop msg s)) = None \<or> kind_at u (fst (fail_stop msg s)) = Some Failure"
  by (simp add: fail_stop_def kind_at_def fail_def map_of_fold_update)

lemma step_unsubscribed:
  assumes np: "phase (fst s) \<noteq> Publishing" and k: "kind_at u (fst s) = None"
  shows "kind_at u (fst (step e s)) = None \<or> kind_at u (fst (step e s)) = Some Pending
         \<or> (kind_at u (fst (step e s)) = Some Failure \<and> signing_failure e)"
proof (cases e)
  case Abort
  then show ?thesis using k by (simp add: abort_controller_def kind_at_def)
next
  case ProcessItem
  then show ?thesis using k by (simp add: processItem_def kind_at_def)
next
  case (Continue found)
  show ?thesis
  proof (cases "phase (fst s) = Scheduled")
    case False
    then show ?thesis using k Continue by simp
  next
    case True
    show ?thesis
    proof (cases "sending (fst s)")
      case None
      then show ?thesis using Continue True k by (simp add: raise_out_def kind_at_def)
    next
      case (Some ev)
      show ?thesis
      proof (cases "isSignedEvent ev")
        case True
        then show ?thesis using Continue \<open>phase (fst s) = Scheduled\<close> Some k after_sign_writes [of u s]
          by auto
      next
        case ns: False
        show ?thesis
        proof (cases found)
          case True
          then show ?thesis using Continue \<open>phase (fst s) = Scheduled\<close> Some ns k by (simp add: kind_at_def)
        next
          case False
          then show ?thesis using Continue \<open>phase (fst s) = Scheduled\<close> Some ns
              fail_stop_writes [of u "''No signer found for '' @ js_string (pubkey ev)" s]
            by auto
        qed
      qed
    qed
  qed
next
  case (SignReturns r)
  show ?thesis
  proof (cases "phase (fst s) = Signing")
    case False
    then show ?thesis using k SignReturns by simp
  next
    case True
    show ?thesis
    proof (cases r)
      case (SignOk signed)
      have "kind_at u (fst ((fst s)\<lparr>sending := signed\<rparr>, snd s)) = None" using k by (simp add: kind_at_def)
      then show ?thesis using SignReturns SignOk True
          after_sign_writes [of u "((fst s)\<lparr>sending := signed\<rparr>, snd s)"] by auto
    next
      case (SignErr err)
      show ?thesis
      proof (cases "error_message err")
        case None
        then show ?thesis using SignReturns SignErr True k by (simp add: raise_out_def kind_at_def)
      next
        case (Some msg)
        then show ?thesis using SignReturns SignErr True fail_stop_writes [of u msg s] by auto
      qed
    qed
  qed
next
  case Wake
  then show ?thesis using k start_publish_writes [of u s] by auto
next
  case (Notify n)
  then show ?thesis using np k by simp
qed

lemma entered_unsubscribed:
  "all_entered t \<Longrightarrow> u \<in> set (relays (request t)) \<Longrightarrow> u \<noteq> [] \<Longrightarrow> kind_at u t = None \<Longrightarrow>
   phase t \<noteq> Publishing"
  by (auto simp: all_entered_def list_all_iff kind_at_def)

lemmas dispatch_defs = run_def makeThunk_def prepEvent_def Let_def isStampedEvent_def isOwnedEvent_def
  isHashedEvent_def isSignedEvent_def isUnwrappedEvent_def stamp_def own_def hash_def fields_of_def
  processItem_def after_sign_def start_publish_def fail_def fail_stop_def raise_out_def fromPairs_def
  error_message_def abort_controller_def
  assoc_status_def js_string_def resolve_def kind_at_def env0_def note0_def req_a_def no_shared_def
  signed0_def

text \<open>
  Claim C8, as the code has it. Along every sequence of happenings of a new unit, an
  endpoint's status never moves back: once Pending it is never absent again, once
  terminal never Pending or absent again. An endpoint that has a status keeps exactly
  that status through every happening that is not a notification about the same endpoint.
  A requested endpoint with a non-empty name leaves absent only to Pending, or to Failure
  on a happening at which no signer is found or the signer rejects; when no signer is
  found it goes from absent to Failure at once.
\<close>

theorem status_never_moves_back:
  "stage_of (kind_at u (fst (run evs (makeThunk env req, sh))))
     \<le> stage_of (kind_at u (fst (run (evs @ evs') (makeThunk env req, sh))))
   \<and> (kind_at u (fst (run evs (makeThunk env req, sh))) \<noteq> None \<and> (\<forall>e \<in> set evs'. \<not> notifies u e) \<longrightarrow>
        map_of (statusByUrl (fst (run (evs @ evs') (makeThunk env req, sh)))) u =
        map_of (statusByUrl (fst (run evs (makeThunk env req, sh)))) u)
   \<and> (u \<in> set (relays req) \<and> u \<noteq> [] \<and> kind_at u (fst (run evs (makeThunk env req, sh))) = None \<longrightarrow>
        kind_at u (fst (run (evs @ [e]) (makeThunk env req, sh))) = None
        \<or> kind_at u (fst (run (evs @ [e]) (makeThunk env req, sh))) = Some Pending
        \<or> (kind_at u (fst (run (evs @ [e]) (makeThunk env req, sh))) = Some Failure \<and> signing_failure e))
   \<and> (phase t = Scheduled \<and> sending t = Some ev \<and> \<not> isSignedEvent ev \<and> statusByUrl t = []
       \<and> u \<in> set (relays (request t)) \<longrightarrow>
        kind_at u t = None \<and> kind_at u (fst (step (Continue False) (t, sh))) = Some Failure)"
proof (intro conjI impI)
  let ?s = "run evs (makeThunk env req, sh)"
  have q: "subscribed_or_unset (fst ?s)"
    by (intro run_quiet) (simp add: makeThunk_quiet)
  show "stage_of (kind_at u (fst ?s)) \<le> stage_of (kind_at u (fst (run (evs @ evs') (makeThunk env req, sh))))"
    using run_stage [OF q] by (simp add: run_append)
  assume a: "kind_at u (fst ?s) \<noteq> None \<and> (\<forall>e \<in> set evs'. \<not> notifies u e)"
  then have "statusByUrl (fst ?s) \<noteq> []" by (auto simp: kind_at_def)
  with q have "phase (fst ?s) = Publishing \<or> phase (fst ?s) = Stopped"
    by (auto simp: subscribed_or_unset_def)
  then show "map_of (statusByUrl (fst (run (evs @ evs') (makeThunk env req, sh)))) u =
        map_of (statusByUrl (fst ?s)) u"
    using run_unnotified [of ?s evs' u] a by (simp add: run_append)
next
  let ?s = "run evs (makeThunk env req, sh)"
  assume b: "u \<in> set (relays req) \<and> u \<noteq> [] \<and> kind_at u (fst ?s) = None"
  have en: "all_entered (fst ?s)"
    by (intro run_entered) (simp add: makeThunk_entered)
  have rq: "request (fst ?s) = req"
    by (simp add: run_request makeThunk_def Let_def)
  have "phase (fst ?s) \<noteq> Publishing"
    using en b rq by (intro entered_unsubscribed [where u = u]) simp_all
  then have "kind_at u (fst (step e ?s)) = None \<or> kind_at u (fst (step e ?s)) = Some Pending
      \<or> (kind_at u (fst (step e ?s)) = Some Failure \<and> signing_failure e)"
    using b by (intro step_unsubscribed) simp_all
  then show "kind_at u (fst (run (evs @ [e]) (makeThunk env req, sh))) = None
        \<or> kind_at u (fst (run (evs @ [e]) (makeThunk env req, sh))) = Some Pending
        \<or> (kind_at u (fst (run (evs @ [e]) (makeThunk env req, sh))) = Some Failure \<and> signing_failure e)"
    by (simp add: run_snoc)
next
  assume a: "phase t = Scheduled \<and> sending t = Some ev \<and> \<not> isSignedEvent ev \<and> statusByUrl t = []
       \<and> u \<in> set (relays (request t))"
  then show "kind_at u t = None" by (simp add: kind_at_def)
  from a show "kind_at u (fst (step (Continue False) (t, sh))) = Some Failure"
    by (simp add: kind_at_def fail_stop_def map_of_fail)
qed

text \<open>
  C8 on the first request: after the Success of \<open>''wss://a''\<close>, a timeout of another
  endpoint, an abort and the completion leave the status of \<open>''wss://a''\<close> as it is; the
  endpoint is absent until the signer returns and Pending then; without a signer it is
  Failure at once.
\<close>

theorem status_never_moves_back_witness:
  "kind_at ''wss://a'' (fst (run [ProcessItem, Continue True, SignReturns (SignOk (Some signed0)),
        Notify (OnSuccess ''id:hello'' ''ok'' ''wss://a'')] (makeThunk env0 req_a, no_shared))) = Some Success
   \<and> \<not> notifies ''wss://a'' (Notify (OnTimeout ''wss://b'')) \<and> \<not> notifies ''wss://a'' Abort
   \<and> \<not> notifies ''wss://a'' (Notify OnComplete)
   \<and> map_of (statusByUrl (fst (run ([ProcessItem, Continue True, SignReturns (SignOk (Some signed0)),
        Notify (OnSuccess ''id:hello'' ''ok'' ''wss://a'')] @ [Notify (OnTimeout ''wss://b''), Abort, Notify OnComplete])
        (makeThunk env0 req_a, no_shared)))) ''wss://a'' = Some \<lparr>message = ''ok'', status = Success\<rparr>
   \<and> ''wss://a'' \<in> set (relays req_a) \<and> ''wss://a'' \<noteq> []
   \<and> kind_at ''wss://a'' (fst (run [ProcessItem, Continue True] (makeThunk env0 req_a, no_shared))) = None
   \<and> kind_at ''wss://a'' (fst (run ([ProcessItem, Continue True] @ [SignReturns (SignOk (Some signed0))])
        (makeThunk env0 req_a, no_shared))) = Some Pending
   \<and> \<not> signing_failure (SignReturns (SignOk (Some signed0)))
   \<and> phase (unit_a_after [ProcessItem]) = Scheduled
   \<and> sending (unit_a_after [ProcessItem]) = Some (fields_of (prepEvent env0 note0))
   \<and> \<not> isSignedEvent (fields_of (prepEvent env0 note0))
   \<and> statusByUrl (unit_a_after [ProcessItem]) = []
   \<and> ''wss://a'' \<in> set (relays (request (unit_a_after [ProcessItem])))
   \<and> kind_at ''wss://a'' (fst (step (Continue False) (unit_a_after [ProcessItem], no_shared))) = Some Failure"
proof -
  let ?evs = "[ProcessItem, Continue True, SignReturns (SignOk (Some signed0)), Notify (OnSuccess ''id:hello'' ''ok'' ''wss://a'')]"
  let ?evs' = "[Notify (OnTimeout ''wss://b''), Abort, Notify OnComplete]"
  let ?pre = "[ProcessItem, Continue True]"
  have k: "kind_at ''wss://a'' (fst (run ?evs (makeThunk env0 req_a, no_shared))) = Some Success"
    by (simp add: dispatch_defs)
  have m: "map_of (statusByUrl (fst (run ?evs (makeThunk env0 req_a, no_shared)))) ''wss://a''
      = Some \<lparr>message = ''ok'', status = Success\<rparr>"
    by (simp add: dispatch_defs)
  have n: "\<forall>e \<in> set ?evs'. \<not> notifies ''wss://a'' e" by simp
  have p: "''wss://a'' \<in> set (relays req_a) \<and> ''wss://a'' \<noteq> []
      \<and> kind_at ''wss://a'' (fst (run ?pre (makeThunk env0 req_a, no_shared))) = None"
    by (simp add: dispatch_defs)
  have p': "kind_at ''wss://a'' (fst (run (?pre @ [SignReturns (SignOk (Some signed0))])
        (makeThunk env0 req_a, no_shared))) = Some Pending"
    by (simp add: dispatch_defs)
  have h: "phase (unit_a_after [ProcessItem]) = Scheduled
      \<and> sending (unit_a_after [ProcessItem]) = Some (fields_of (prepEvent env0 note0))
      \<and> \<not> isSignedEvent (fields_of (prepEvent env0 note0))
      \<and> statusByUrl (unit_a_after [ProcessItem]) = []
      \<and> ''wss://a'' \<in> set (relays (request (unit_a_after [ProcessItem])))"
    by (simp add: unit_a_after_def dispatch_defs)
  note T = status_never_moves_back [where u = "''wss://a''" and evs = ?evs and env = env0 and req = req_a
      and sh = no_shared and evs' = ?evs' and t = "unit_a_after [ProcessItem]"
      and ev = "fields_of (prepEvent env0 note0)"]
  note T' = status_never_moves_back [where u = "''wss://a''" and evs = ?pre and env = env0 and req = req_a
      and sh = no_shared and e = "SignReturns (SignOk (Some signed0))"]
  have "map_of (statusByUrl (fst (run (?evs @ ?evs') (makeThunk env0 req_a, no_shared)))) ''wss://a''
      = map_of (statusByUrl (fst (run ?evs (makeThunk env0 req_a, no_shared)))) ''wss://a''"
    using T [THEN conjunct2, THEN conjunct1] k n by simp
  moreover have "kind_at ''wss://a'' (fst (step (Continue False) (unit_a_after [ProcessItem], no_shared))) = Some Failure"
    using T [THEN conjunct2, THEN conjunct2, THEN conjunct2] h by simp
  moreover have "kind_at ''wss://a'' (fst (run (?pre @ [SignReturns (SignOk (Some signed0))])
        (makeThunk env0 req_a, no_shared))) = None
     \<or> kind_at ''wss://a'' (fst (run (?pre @ [SignReturns (SignOk (Some signed0))])
        (makeThunk env0 req_a, no_shared))) = Some Pending
     \<or> (kind_at ''wss://a'' (fst (run (?pre @ [SignReturns (SignOk (Some signed0))])
        (makeThunk env0 req_a, no_shared))) = Some Failure \<and> signing_failure (SignReturns (SignOk (Some signed0))))"
    using T' [THEN conjunct2, THEN conjunct2, THEN conjunct1] p by simp
  ultimately show ?thesis using k m h p p' by simp
qed

text \<open>
  Claim C8 as stated fails. When no signer is found, \<^verbatim>\<open>fail\<close> takes the endpoint from
  absent to Failure with no Pending between; and the handlers overwrite a terminal status
  when the broadcaster notifies the same endpoint again, here Success by Failure.
\<close>

theorem status_skips_pending_and_leaves_terminal:
  "kind_at ''wss://a'' (fst (run [ProcessItem] (makeThunk env0 req_a, no_shared))) = None
   \<and> kind_at ''wss://a'' (fst (run [ProcessItem, Continue False] (makeThunk env0 req_a, no_shared))) = Some Failure
   \<and> \<not> lifecycle_step None (Some Failure)
   \<and> kind_at ''wss://a'' (fst (run [ProcessItem, Continue True, SignReturns (SignOk (Some signed0)),
          Notify (OnSuccess ''id:hello'' ''ok'' ''wss://a'')] (makeThunk env0 req_a, no_shared))) = Some Success
   \<and> kind_at ''wss://a'' (fst (run [ProcessItem, Continue True, SignReturns (SignOk (Some signed0)),
          Notify (OnSuccess ''id:hello'' ''ok'' ''wss://a''), Notify (OnFailure ''id:hello'' ''late'' ''wss://a'')]
          (makeThunk env0 req_a, no_shared))) = Some Failure
   \<and> \<not> lifecycle_step (Some Success) (Some Failure)"
  by (simp add: dispatch_defs lifecycle_step_def)

text \<open>
  Why the endpoint's name must not be empty: \<^verbatim>\<open>fromPairs\<close> leaves the empty key out, so
  a requested endpoint named by the empty string has no status when the unit subscribes,
  and the first notification about it takes it from absent to a terminal kind.
\<close>

lemma unnamed_endpoint_skips_pending:
  "[] \<in> set (relays req_unnamed)
   \<and> phase (fst (run [ProcessItem, Continue True, SignReturns (SignOk (Some signed0))]
          (makeThunk env0 req_unnamed, no_shared))) = Publishing
   \<and> kind_at [] (fst (run [ProcessItem, Continue True, SignReturns (SignOk (Some signed0))]
          (makeThunk env0 req_unnamed, no_shared))) = None
   \<and> kind_at [] (fst (run [ProcessItem, Continue True, SignReturns (SignOk (Some signed0)),
          Notify (OnSuccess ''id:hello'' ''ok'' [])] (makeThunk env0 req_unnamed, no_shared))) = Some Success"
  by (simp add: dispatch_defs req_unnamed_def)

text \<open>
  Claim C2, as the code has it. The result changes only when the Complete notification
  arrives at a subscribed unit, which resolves it with the mapping of that moment; it is
  never rejected. No exception leaves the dispatch as long as the signer, whenever it
  settles, resolves with an event or rejects with a value from which
  \<^verbatim>\<open>String(e.error || e)\<close> makes a message. When no signer is found, or the signer rejects
  with such a value, every requested endpoint is set to Failure with the message and the
  dispatch stops. When the signer rejects with another value, the handler raises: the
  dispatch stops with the mapping as it was. When the signer resolves with \<^verbatim>\<open>undefined\<close>
  or \<^verbatim>\<open>null\<close> (here with no delay and no abort), the endpoints are set to Pending and the
  dispatch raises before it subscribes. A Failure, Timeout or Aborted notification sets
  the notified endpoint to that kind. When the controller is found aborted as
  \<^verbatim>\<open>processItem\<close> starts or as the delay ends, the dispatch stops and leaves the mapping
  and the result as they were, whatever happens later.
\<close>

theorem dispatch_failures_set_statuses:
  "result (fst (step e s)) =
     (if e = Notify OnComplete \<and> phase (fst s) = Publishing
      then resolve (statusByUrl (fst s)) (result (fst s)) else result (fst s))
   \<and> \<not> is_rejected (result (fst (run evs (makeThunk env req, sh))))
   \<and> ((\<forall>e' \<in> set evs. \<not> raises e') \<longrightarrow> \<not> uncaught (fst (run evs (makeThunk env req, sh))))
   \<and> (phase t = Scheduled \<and> sending t = Some ev \<and> \<not> isSignedEvent ev \<and> url \<in> set (relays (request t)) \<longrightarrow>
        map_of (statusByUrl (fst (step (Continue False) (t, sh)))) url =
          Some \<lparr>message = ''No signer found for '' @ js_string (pubkey ev), status = Failure\<rparr>
        \<and> phase (fst (step (Continue False) (t, sh))) = Stopped
        \<and> uncaught (fst (step (Continue False) (t, sh))) = uncaught t)
   \<and> (phase t = Signing \<and> error_message err = Some m \<and> url \<in> set (relays (request t)) \<longrightarrow>
        map_of (statusByUrl (fst (step (SignReturns (SignErr err)) (t, sh)))) url =
          Some \<lparr>message = m, status = Failure\<rparr>
        \<and> phase (fst (step (SignReturns (SignErr err)) (t, sh))) = Stopped
        \<and> uncaught (fst (step (SignReturns (SignErr err)) (t, sh))) = uncaught t)
   \<and> (phase t = Signing \<and> error_message err = None \<longrightarrow>
        uncaught (fst (step (SignReturns (SignErr err)) (t, sh)))
        \<and> statusByUrl (fst (step (SignReturns (SignErr err)) (t, sh))) = statusByUrl t
        \<and> phase (fst (step (SignReturns (SignErr err)) (t, sh))) = Stopped)
   \<and> (phase t = Signing \<and> \<not> aborted t \<and> delay (request t) = None \<and> url \<in> set (relays (request t))
       \<and> url \<noteq> [] \<longrightarrow>
        uncaught (fst (step (SignReturns (SignOk None)) (t, sh)))
        \<and> map_of (statusByUrl (fst (step (SignReturns (SignOk None)) (t, sh)))) url =
            Some \<lparr>message = ''Sending your message...'', status = Pending\<rparr>
        \<and> phase (fst (step (SignReturns (SignOk None)) (t, sh))) = Stopped)
   \<and> (phase t = Publishing \<longrightarrow>
        map_of (statusByUrl (fst (step (Notify (OnFailure i msg url)) (t, sh)))) url =
          Some \<lparr>message = msg, status = Failure\<rparr>
        \<and> map_of (statusByUrl (fst (step (Notify (OnTimeout url)) (t, sh)))) url =
          Some \<lparr>message = ''Publish timed out'', status = Timeout\<rparr>
        \<and> map_of (statusByUrl (fst (step (Notify (OnAborted url)) (t, sh)))) url =
          Some \<lparr>message = ''Publish was aborted'', status = Aborted\<rparr>
        \<and> result (fst (step (Notify OnComplete) (t, sh))) = resolve (statusByUrl t) (result t))
   \<and> (aborted t \<and> (phase t = Queued \<or> phase t = Delaying) \<longrightarrow>
        statusByUrl (fst (run evs (t, sh))) = statusByUrl t \<and> result (fst (run evs (t, sh))) = result t
        \<and> phase (fst (run (ProcessItem # Wake # evs) (t, sh))) = Stopped)"
proof (intro conjI impI)
  show "result (fst (step e s)) =
     (if e = Notify OnComplete \<and> phase (fst s) = Publishing
      then resolve (statusByUrl (fst s)) (result (fst s)) else result (fst s))"
    by (rule step_result)
  show "\<not> is_rejected (result (fst (run evs (makeThunk env req, sh))))"
    by (intro run_not_rejected) (simp add: makeThunk_def Let_def is_rejected_def)
  show "\<not> uncaught (fst (run evs (makeThunk env req, sh)))" if "\<forall>e' \<in> set evs. \<not> raises e'"
    using run_no_raise [of "(makeThunk env req, sh)" evs] that by (simp add: makeThunk_def Let_def)
next
  assume a: "phase t = Scheduled \<and> sending t = Some ev \<and> \<not> isSignedEvent ev \<and> url \<in> set (relays (request t))"
  then show "map_of (statusByUrl (fst (step (Continue False) (t, sh)))) url =
          Some \<lparr>message = ''No signer found for '' @ js_string (pubkey ev), status = Failure\<rparr>"
    by (simp add: fail_stop_def map_of_fail)
  from a show "phase (fst (step (Continue False) (t, sh))) = Stopped" by (simp add: fail_stop_def)
  from a show "uncaught (fst (step (Continue False) (t, sh))) = uncaught t"
    by (simp add: fail_stop_def fail_def)
next
  assume a: "phase t = Signing \<and> error_message err = Some m \<and> url \<in> set (relays (request t))"
  then show "map_of (statusByUrl (fst (step (SignReturns (SignErr err)) (t, sh)))) url =
          Some \<lparr>message = m, status = Failure\<rparr>"
    by (simp add: fail_stop_def map_of_fail)
  from a show "phase (fst (step (SignReturns (SignErr err)) (t, sh))) = Stopped" by (simp add: fail_stop_def)
  from a show "uncaught (fst (step (SignReturns (SignErr err)) (t, sh))) = uncaught t"
    by (simp add: fail_stop_def fail_def)
next
  assume a: "phase t = Signing \<and> error_message err = None"
  then show "uncaught (fst (step (SignReturns (SignErr err)) (t, sh)))"
    and "statusByUrl (fst (step (SignReturns (SignErr err)) (t, sh))) = statusByUrl t"
    and "phase (fst (step (SignReturns (SignErr err)) (t, sh))) = Stopped"
    by (simp_all add: raise_out_def)
next
  assume a: "phase t = Signing \<and> \<not> aborted t \<and> delay (request t) = None \<and> url \<in> set (relays (request t))
       \<and> url \<noteq> []"
  then show "uncaught (fst (step (SignReturns (SignOk None)) (t, sh)))"
    and "phase (fst (step (SignReturns (SignOk None)) (t, sh))) = Stopped"
    by (simp_all add: after_sign_def start_publish_def raise_out_def Let_def)
  from a show "map_of (statusByUrl (fst (step (SignReturns (SignOk None)) (t, sh)))) url =
            Some \<lparr>message = ''Sending your message...'', status = Pending\<rparr>"
    by (simp add: after_sign_def start_publish_def raise_out_def Let_def map_of_fromPairs)
next
  assume a: "phase t = Publishing"
  then show "map_of (statusByUrl (fst (step (Notify (OnFailure i msg url)) (t, sh)))) url =
          Some \<lparr>message = msg, status = Failure\<rparr>"
    and "map_of (statusByUrl (fst (step (Notify (OnTimeout url)) (t, sh)))) url =
          Some \<lparr>message = ''Publish timed out'', status = Timeout\<rparr>"
    and "map_of (statusByUrl (fst (step (Notify (OnAborted url)) (t, sh)))) url =
          Some \<lparr>message = ''Publish was aborted'', status = Aborted\<rparr>"
    and "result (fst (step (Notify OnComplete) (t, sh))) = resolve (statusByUrl t) (result t)"
    by (simp_all add: assoc_status_def update_conv')
next
  assume a: "aborted t \<and> (phase t = Queued \<or> phase t = Delaying)"
  then have idle: "aborted (fst (t, sh))"
      "phase (fst (t, sh)) = Queued \<or> phase (fst (t, sh)) = Delaying \<or> phase (fst (t, sh)) = Stopped"
    by auto
  from run_aborted_idle [OF idle, of evs]
  show "statusByUrl (fst (run evs (t, sh))) = statusByUrl t"
    and "result (fst (run evs (t, sh))) = result t" by simp_all
  have two: "aborted (fst (run [ProcessItem, Wake] (t, sh)))
      \<and> phase (fst (run [ProcessItem, Wake] (t, sh))) = Stopped"
    using a by (auto simp: run_def processItem_def start_publish_def)
  have stays: "phase (fst (run evs s')) = Stopped" if "aborted (fst s')" "phase (fst s') = Stopped" for s'
    using that
  proof (induction evs rule: rev_induct)
    case Nil
    then show ?case by (simp add: run_def)
  next
    case (snoc e evs)
    then have "phase (fst (run evs s')) = Stopped" by simp
    then have "phase (fst (step e (run evs s'))) = Stopped"
    proof (cases e)
      case Abort
      then show "phase (fst (run evs s')) = Stopped \<Longrightarrow> ?thesis" by (simp add: abort_controller_def)
    qed auto
    then show ?case by (simp add: run_snoc)
  qed
  have "run (ProcessItem # Wake # evs) (t, sh) = run evs (run [ProcessItem, Wake] (t, sh))"
    by (simp add: run_def)
  then show "phase (fst (run (ProcessItem # Wake # evs) (t, sh))) = Stopped"
    using stays [of "run [ProcessItem, Wake] (t, sh)"] two by simp
qed

text \<open>
  C2 on the first request: the scheduled unit without a signer, the unit whose signer
  rejects with an error, with \<^verbatim>\<open>undefined\<close> and with nothing to sign, the subscribed
  unit, and the unit aborted before \<^verbatim>\<open>processItem\<close>.
\<close>

theorem dispatch_failures_set_statuses_witness:
  "\<not> raises ProcessItem \<and> \<not> raises (Continue True)
   \<and> \<not> raises (SignReturns (SignErr (Thrown None (Some ''Error: denied''))))
   \<and> \<not> uncaught (unit_a_after [ProcessItem, Continue True, SignReturns (SignErr (Thrown None (Some ''Error: denied'')))])
   \<and> phase (unit_a_after [ProcessItem]) = Scheduled
   \<and> sending (unit_a_after [ProcessItem]) = Some (fields_of (prepEvent env0 note0))
   \<and> \<not> isSignedEvent (fields_of (prepEvent env0 note0))
   \<and> ''wss://a'' \<in> set (relays (request (unit_a_after [ProcessItem])))
   \<and> map_of (statusByUrl (fst (step (Continue False) (unit_a_after [ProcessItem], no_shared)))) ''wss://a'' =
        Some \<lparr>message = ''No signer found for alice'', status = Failure\<rparr>
   \<and> phase (unit_a_after [ProcessItem, Continue True]) = Signing
   \<and> ''wss://a'' \<in> set (relays (request (unit_a_after [ProcessItem, Continue True])))
   \<and> error_message (Thrown (Some (Some ''denied'')) (Some ''[object Object]'')) = Some ''denied''
   \<and> map_of (statusByUrl (fst (step (SignReturns (SignErr (Thrown (Some (Some ''denied'')) (Some ''[object Object]''))))
          (unit_a_after [ProcessItem, Continue True], no_shared)))) ''wss://a'' =
        Some \<lparr>message = ''denied'', status = Failure\<rparr>
   \<and> error_message (Thrown None None) = None
   \<and> uncaught (fst (step (SignReturns (SignErr (Thrown None None))) (unit_a_after [ProcessItem, Continue True], no_shared)))
   \<and> statusByUrl (fst (step (SignReturns (SignErr (Thrown None None)))
          (unit_a_after [ProcessItem, Continue True], no_shared))) = []
   \<and> \<not> aborted (unit_a_after [ProcessItem, Continue True])
   \<and> delay (request (unit_a_after [ProcessItem, Continue True])) = None \<and> ''wss://a'' \<noteq> []
   \<and> uncaught (fst (step (SignReturns (SignOk None)) (unit_a_after [ProcessItem, Continue True], no_shared)))
   \<and> map_of (statusByUrl (fst (step (SignReturns (SignOk None))
          (unit_a_after [ProcessItem, Continue True], no_shared)))) ''wss://a'' =
        Some \<lparr>message = ''Sending your message...'', status = Pending\<rparr>
   \<and> phase (unit_a_after [ProcessItem, Continue True, SignReturns (SignOk (Some signed0))]) = Publishing
   \<and> map_of (statusByUrl (fst (step (Notify (OnTimeout ''wss://a''))
          (unit_a_after [ProcessItem, Continue True, SignReturns (SignOk (Some signed0))], no_shared)))) ''wss://a'' =
        Some \<lparr>message = ''Publish timed out'', status = Timeout\<rparr>
   \<and> result (fst (step (Notify OnComplete)
          (unit_a_after [ProcessItem, Continue True, SignReturns (SignOk (Some signed0))], no_shared))) =
        Fulfilled [(''wss://a'', \<lparr>message = ''Sending your message...'', status = Pending\<rparr>)]
   \<and> aborted (unit_a_after [Abort]) \<and> phase (unit_a_after [Abort]) = Queued
   \<and> statusByUrl (fst (run [ProcessItem, Continue True, Notify OnComplete] (unit_a_after [Abort], no_shared))) = []
   \<and> result (fst (run [ProcessItem, Continue True, Notify OnComplete] (unit_a_after [Abort], no_shared))) = Unsettled"
  using
    dispatch_failures_set_statuses [where evs = "[ProcessItem, Continue True, SignReturns (SignErr (Thrown None (Some ''Error: denied'')))]"
      and env = env0 and req = req_a and sh = no_shared and t = "unit_a_after [ProcessItem]" and url = "''wss://a''"
      and ev = "fields_of (prepEvent env0 note0)"]
    dispatch_failures_set_statuses [where sh = no_shared and t = "unit_a_after [ProcessItem, Continue True]"
      and url = "''wss://a''" and err = "Thrown (Some (Some ''denied'')) (Some ''[object Object]'')" and m = "''denied''"]
    dispatch_failures_set_statuses [where sh = no_shared and t = "unit_a_after [ProcessItem, Continue True]"
      and url = "''wss://a''" and err = "Thrown None None"]
    dispatch_failures_set_statuses [where sh = no_shared
      and t = "unit_a_after [ProcessItem, Continue True, SignReturns (SignOk (Some signed0))]" and url = "''wss://a''"]
    dispatch_failures_set_statuses [where sh = no_shared and t = "unit_a_after [Abort]"
      and evs = "[ProcessItem, Continue True, Notify OnComplete]"]
  by (simp add: unit_a_after_def dispatch_defs)

text \<open>
  Claim C2 as stated fails on the abort path: the unit aborted before \<^verbatim>\<open>processItem\<close>
  runs stops there; its endpoint never gets a status and its result is never resolved.
\<close>

theorem aborted_unit_never_settles:
  "statusByUrl (fst (run [Abort, ProcessItem, Continue True, SignReturns (SignOk (Some signed0)), Wake, Notify OnComplete]
        (makeThunk env0 req_a, no_shared))) = []
   \<and> kind_at ''wss://a'' (fst (run [Abort, ProcessItem, Continue True, SignReturns (SignOk (Some signed0)), Wake, Notify OnComplete]
        (makeThunk env0 req_a, no_shared))) = None
   \<and> result (fst (run [Abort, ProcessItem, Continue True, SignReturns (SignOk (Some signed0)), Wake, Notify OnComplete]
        (makeThunk env0 req_a, no_shared))) = Unsettled
   \<and> phase (fst (run [Abort, ProcessItem, Continue True, SignReturns (SignOk (Some signed0)), Wake, Notify OnComplete]
        (makeThunk env0 req_a, no_shared))) = Stopped"
  by (simp add: dispatch_defs)


















section \<open>Properties of aggregates and the registry\<close>

lemma nth_update_field:
  assumes "\<And>x. f (g x) = f x"
  shows "f ((xs[i := g (xs ! i)]) ! j) = f (xs ! j)"
proof (cases "i = j \<and> i < length xs")
  case True
  then show ?thesis using assms by simp
next
  case False
  then show ?thesis by (cases "i = j") (simp_all add: list_update_beyond)
qed

lemma register_thunk_units:
  assumes "\<And>t l. f (t\<lparr>abort_listeners := l\<rparr>) = f t"
  shows "f (units (register_thunk entry app i) ! j) = f (units app ! j)"
  unfolding register_thunk_def Let_def
  using nth_update_field [of f "\<lambda>t. t\<lparr>abort_listeners := abort_listeners t @ [js_string (id' (event t))]\<rparr>" "units app" i j]
    assms by simp


lemma register_thunk_mergeds: "mergeds (register_thunk entry app i) = mergeds app"
  by (simp add: register_thunk_def Let_def)

lemma register_all_units:
  assumes "\<And>t l. f (t\<lparr>abort_listeners := l\<rparr>) = f t"
  shows "f (units (foldl (register_thunk entry) app refs) ! j) = f (units app ! j)"
proof (induction refs arbitrary: app)
  case Nil
  show ?case by simp
next
  case (Cons i refs)
  show ?case using Cons [of "register_thunk entry app i"] register_thunk_units [of f entry app i j, OF assms]
    by simp
qed


lemma register_all_mergeds: "mergeds (foldl (register_thunk entry) app refs) = mergeds app"
  by (induction refs arbitrary: app) (simp_all add: register_thunk_mergeds)

lemma register_thunk_store:
  "map_of (thunks_store (register_thunk entry app i)) key =
     (if key = js_string (id' (event (units app ! i))) then Some entry else map_of (thunks_store app) key)"
  by (simp add: register_thunk_def Let_def update_conv')

lemma register_all_store:
  "map_of (thunks_store (foldl (register_thunk entry) app refs)) key =
     (if key \<in> (\<lambda>i. js_string (id' (event (units app ! i)))) ` set refs then Some entry
      else map_of (thunks_store app) key)"
proof (induction refs arbitrary: app)
  case Nil
  show ?case by simp
next
  case (Cons i refs)
  have ev: "\<And>j. event (units (register_thunk entry app i) ! j) = event (units app ! j)"
    by (rule register_thunk_units) simp
  show ?case using Cons [of "register_thunk entry app i"]
    by (auto simp: ev register_thunk_store)
qed

lemma publishThunks_fst: "fst (publishThunks env reqs app) = length (mergeds app)"
  by (simp add: publishThunks_def mergeThunks_def Let_def)

lemma publishThunks_mergeds:
  "mergeds (snd (publishThunks env reqs app)) =
     mergeds app @ [\<lparr>thunks = [length (units app) ..< length (units app) + length reqs], merged_aborted = False\<rparr>]"
  by (simp add: publishThunks_def mergeThunks_def Let_def register_all_mergeds)


lemma publishThunks_unit:
  assumes f: "\<And>t l. f (t\<lparr>abort_listeners := l\<rparr>) = f t" and k: "k < length reqs"
  shows "f (units (snd (publishThunks env reqs app)) ! (length (units app) + k)) = f (makeThunk env (reqs ! k))"
proof -
  have "f (units (snd (publishThunks env reqs app)) ! (length (units app) + k))
      = f ((units app @ map (makeThunk env) reqs) ! (length (units app) + k))"
    by (simp add: publishThunks_def mergeThunks_def Let_def register_all_units [of f, OF f])
  also have "\<dots> = f (makeThunk env (reqs ! k))" using k by (simp add: nth_append)
  finally show ?thesis .
qed

lemma publishThunks_old_unit:
  assumes f: "\<And>t l. f (t\<lparr>abort_listeners := l\<rparr>) = f t" and j: "j < length (units app)"
  shows "f (units (snd (publishThunks env reqs app)) ! j) = f (units app ! j)"
proof -
  have "f (units (snd (publishThunks env reqs app)) ! j) = f ((units app @ map (makeThunk env) reqs) ! j)"
    by (simp add: publishThunks_def mergeThunks_def Let_def register_all_units [of f, OF f])
  then show ?thesis using j by (simp add: nth_append)
qed

lemma publishThunks_store:
  assumes "i \<in> set [length (units app) ..< length (units app) + length reqs]"
  shows "map_of (thunks_store (snd (publishThunks env reqs app)))
           (js_string (id' (event (units (snd (publishThunks env reqs app)) ! i)))) = Some (Merged (length (mergeds app)))"
proof -
  let ?app1 = "app\<lparr>units := units app @ map (makeThunk env) reqs\<rparr>"
  let ?m = "mergeThunks [length (units app) ..< length (units app) + length reqs] ?app1"
  have ev: "event (units (snd (publishThunks env reqs app)) ! i) = event (units (snd ?m) ! i)"
    by (simp add: publishThunks_def Let_def register_all_units [of event])
  have "js_string (id' (event (units (snd ?m) ! i)))
      \<in> (\<lambda>i. js_string (id' (event (units (snd ?m) ! i)))) ` set [length (units app) ..< length (units app) + length reqs]"
    using assms by (rule imageI)
  then show ?thesis
    by (simp only: ev) (simp add: publishThunks_def Let_def register_all_store mergeThunks_def)
qed

lemma map_nth_fun: "map (\<lambda>k. g (xs ! k)) [0 ..< length xs] = map g xs"
  by (rule nth_equalityI) simp_all

lemma map_upt_shift: "map (\<lambda>i. g (i - b)) [b ..< b + n] = map g [0 ..< n]"
  by (induction n) simp_all

text \<open>
  Claim C6. \<^verbatim>\<open>publishThunks\<close> adds exactly one aggregate to the store of aggregates and
  returns it; its members are the new units, one per request and in request order, each
  with its request and the completed event of its request; and the registry maps the
  identity of every member's event to that one aggregate.
\<close>

theorem publishThunks_registers_one_aggregate:
  "fst (publishThunks env reqs app) = length (mergeds app)
   \<and> mergeds (snd (publishThunks env reqs app)) =
       mergeds app @ [\<lparr>thunks = [length (units app) ..< length (units app) + length reqs], merged_aborted = False\<rparr>]
   \<and> thunks (mergeds (snd (publishThunks env reqs app)) ! fst (publishThunks env reqs app)) =
       [length (units app) ..< length (units app) + length reqs]
   \<and> map (\<lambda>i. request (units (snd (publishThunks env reqs app)) ! i))
          (thunks (mergeds (snd (publishThunks env reqs app)) ! fst (publishThunks env reqs app))) = reqs
   \<and> map (\<lambda>i. event (units (snd (publishThunks env reqs app)) ! i))
          (thunks (mergeds (snd (publishThunks env reqs app)) ! fst (publishThunks env reqs app))) =
       map (\<lambda>req. prepEvent env (req_event req)) reqs
   \<and> (\<forall>i \<in> set (thunks (mergeds (snd (publishThunks env reqs app)) ! fst (publishThunks env reqs app))).
         map_of (thunks_store (snd (publishThunks env reqs app)))
           (js_string (id' (event (units (snd (publishThunks env reqs app)) ! i))))
           = Some (Merged (fst (publishThunks env reqs app))))"
proof -
  let ?r = "publishThunks env reqs app"
  let ?refs = "[length (units app) ..< length (units app) + length reqs]"
  have members: "thunks (mergeds (snd ?r) ! fst ?r) = ?refs"
    by (simp add: publishThunks_fst publishThunks_mergeds)
  have unit: "f (units (snd ?r) ! i) = f (makeThunk env (reqs ! (i - length (units app))))"
    if "\<And>t l. f (t\<lparr>abort_listeners := l\<rparr>) = f t" and "i \<in> set ?refs" for f :: "Thunk \<Rightarrow> 'b" and i
  proof -
    from that(2) have k: "i - length (units app) < length reqs"
      and i: "length (units app) + (i - length (units app)) = i" by auto
    show ?thesis
      using publishThunks_unit [of f "i - length (units app)" reqs env app, OF that(1) k]
      by (simp only: i)
  qed
  have req: "map (\<lambda>i. request (units (snd ?r) ! i)) ?refs = reqs"
  proof -
    have "map (\<lambda>i. request (units (snd ?r) ! i)) ?refs
        = map (\<lambda>i. request (makeThunk env (reqs ! (i - length (units app))))) ?refs"
      by (rule map_cong [OF refl]) (rule unit, simp)
    also have "\<dots> = map (\<lambda>k. request (makeThunk env (reqs ! k))) [0 ..< length reqs]"
      by (rule map_upt_shift)
    also have "\<dots> = map (\<lambda>k. reqs ! k) [0 ..< length reqs]"
      by (simp add: makeThunk_def Let_def)
    also have "\<dots> = reqs"
      by (rule map_nth)
    finally show ?thesis .
  qed
  have evs: "map (\<lambda>i. event (units (snd ?r) ! i)) ?refs = map (\<lambda>req. prepEvent env (req_event req)) reqs"
  proof -
    have "map (\<lambda>i. event (units (snd ?r) ! i)) ?refs
        = map (\<lambda>i. event (makeThunk env (reqs ! (i - length (units app))))) ?refs"
      by (rule map_cong [OF refl]) (rule unit, simp)
    also have "\<dots> = map (\<lambda>k. event (makeThunk env (reqs ! k))) [0 ..< length reqs]"
      by (rule map_upt_shift)
    also have "\<dots> = map (\<lambda>k. (\<lambda>req. prepEvent env (req_event req)) (reqs ! k)) [0 ..< length reqs]"
      by (simp add: makeThunk_def Let_def)
    also have "\<dots> = map (\<lambda>req. prepEvent env (req_event req)) reqs"
      by (rule map_nth_fun)
    finally show ?thesis .
  qed
  have store: "\<forall>i \<in> set ?refs.
      map_of (thunks_store (snd ?r)) (js_string (id' (event (units (snd ?r) ! i)))) = Some (Merged (fst ?r))"
  proof
    fix i assume "i \<in> set ?refs"
    then show "map_of (thunks_store (snd ?r)) (js_string (id' (event (units (snd ?r) ! i)))) = Some (Merged (fst ?r))"
      by (simp only: publishThunks_fst publishThunks_store)
  qed
  show ?thesis
  proof (intro conjI)
    show "fst ?r = length (mergeds app)" by (rule publishThunks_fst)
    show "mergeds (snd ?r) = mergeds app @ [\<lparr>thunks = ?refs, merged_aborted = False\<rparr>]"
      by (rule publishThunks_mergeds)
    show "thunks (mergeds (snd ?r) ! fst ?r) = ?refs" by (rule members)
    show "map (\<lambda>i. request (units (snd ?r) ! i)) (thunks (mergeds (snd ?r) ! fst ?r)) = reqs"
      by (simp only: members req)
    show "map (\<lambda>i. event (units (snd ?r) ! i)) (thunks (mergeds (snd ?r) ! fst ?r)) =
        map (\<lambda>req. prepEvent env (req_event req)) reqs"
      by (simp only: members evs)
    show "\<forall>i \<in> set (thunks (mergeds (snd ?r) ! fst ?r)).
        map_of (thunks_store (snd ?r)) (js_string (id' (event (units (snd ?r) ! i)))) = Some (Merged (fst ?r))"
      using store by (simp only: members)
  qed
qed

text \<open>
  C6 on the two requests: the aggregate 0 has the units 0 and 1, and both identities
  are registered to it.
\<close>

theorem publishThunks_registers_one_aggregate_witness:
  "thunks (mergeds batch ! 0) = [0, 1]
   \<and> map (\<lambda>i. request (units batch ! i)) (thunks (mergeds batch ! 0)) = [req_a, req_b]
   \<and> js_string (id' (event (units batch ! 0))) = ''id:hello''
   \<and> js_string (id' (event (units batch ! 1))) = ''id:again''
   \<and> map_of (thunks_store batch) ''id:hello'' = Some (Merged 0)
   \<and> map_of (thunks_store batch) ''id:again'' = Some (Merged 0)"
proof -
  have f: "fst (publishThunks env0 [req_a, req_b] new_app) = 0"
    by (simp add: publishThunks_fst new_app_def)
  have m: "thunks (mergeds batch ! 0) = [0, 1]"
    by (simp add: batch_def publishThunks_mergeds new_app_def upt_rec)
  have ids: "js_string (id' (event (units batch ! 0))) = ''id:hello''"
      "js_string (id' (event (units batch ! 1))) = ''id:again''"
    by code_simp+
  note T = publishThunks_registers_one_aggregate [of env0 "[req_a, req_b]" new_app, unfolded f, folded batch_def]
  from T have reqs: "map (\<lambda>i. request (units batch ! i)) (thunks (mergeds batch ! 0)) = [req_a, req_b]"
    by (elim conjE)
  from T have store: "\<forall>i \<in> set (thunks (mergeds batch ! 0)).
      map_of (thunks_store batch) (js_string (id' (event (units batch ! i)))) = Some (Merged 0)"
    by (elim conjE)
  have "0 \<in> set (thunks (mergeds batch ! 0))" "1 \<in> set (thunks (mergeds batch ! 0))"
    by (simp_all add: m)
  with store have "map_of (thunks_store batch) (js_string (id' (event (units batch ! 0)))) = Some (Merged 0)"
      "map_of (thunks_store batch) (js_string (id' (event (units batch ! 1)))) = Some (Merged 0)"
    by blast+
  then have "map_of (thunks_store batch) ''id:hello'' = Some (Merged 0)"
      "map_of (thunks_store batch) ''id:again'' = Some (Merged 0)"
    by (simp_all only: ids)
  with m reqs ids show ?thesis by (intro conjI)
qed



lemma unit_step_mergeds: "mergeds (unit_step j e app) = mergeds app"
  by (simp add: unit_step_def Let_def)







lemma abort_all_mergeds: "mergeds (foldl (\<lambda>a j. unit_step j Abort a) app js) = mergeds app"
  by (induction js arbitrary: app) (simp_all add: unit_step_mergeds)





lemma abort_merged_thunks: "map thunks (mergeds (abort_merged k app)) = map thunks (mergeds app)"
proof -
  have "map thunks ((mergeds app)[k := (mergeds app ! k)\<lparr>merged_aborted := True\<rparr>]) = map thunks (mergeds app)"
  proof (cases "k < length (mergeds app)")
    case True
    then have "(map thunks (mergeds app))[k := map thunks (mergeds app) ! k] = map thunks (mergeds app)"
      by (simp only: list_update_id)
    then show ?thesis using True by (simp add: map_update)
  next
    case False
    then show ?thesis by (simp add: list_update_beyond)
  qed
  then show ?thesis by (simp add: abort_merged_def abort_all_mergeds)
qed

lemma abort_merged_length: "length (mergeds (abort_merged k app)) = length (mergeds app)"
  using abort_merged_thunks [of k app] by (metis length_map)








































end
